theory Spec2Isabelle
  imports Complex_Main
begin

section \<open>Voltorb Flip solver: data model\<close>

text \<open>
  The embedding follows \<^verbatim>\<open>src/voltorb.py\<close>. Python's unbounded integers are \<^typ>\<open>int\<close>;
  loop indices produced by \<^verbatim>\<open>range\<close> are \<^typ>\<open>nat\<close> and are converted with \<^term>\<open>int\<close> where
  they meet a dictionary key. A leading underscore of a Python name is dropped, since an
  Isabelle name starts with a letter.
\<close>

definition N :: nat where
  "N = 5"

type_synonym val = int
type_synonym coord = "int \<times> int"

text \<open>
  \<^verbatim>\<open>opened: Dict[Coord, Val]\<close> is the list of its items in insertion order; \<^verbatim>\<open>opened.get(k)\<close>
  is \<^term>\<open>map_of opened k\<close> and \<^verbatim>\<open>k in opened\<close> is \<^term>\<open>map_of opened k \<noteq> None\<close>. A Python
  dictionary holds every key once: \<^term>\<open>distinct (map fst opened)\<close>.
\<close>

type_synonym opened_map = "(coord \<times> val) list"

text \<open>The exceptions the solver's statements can raise.\<close>

datatype py_error = IndexError | KeyError | TypeError

subsection \<open>Column bound check\<close>

definition col_bounds_so_far :: "int \<Rightarrow> int \<Rightarrow> int \<Rightarrow> int \<Rightarrow> int \<Rightarrow> (int \<times> int) option" where
  "col_bounds_so_far target_sum target_bombs partial_sum partial_bombs rows_left =
     (let bombs_left = target_bombs - partial_bombs in
      if bombs_left < 0 \<or> bombs_left > rows_left then None
      else
        let nonbomb_left = rows_left - bombs_left;
            min_add = nonbomb_left * 1;
            max_add = nonbomb_left * 3;
            min_possible = partial_sum + min_add;
            max_possible = partial_sum + max_add
        in Some (min_possible, max_possible))"

subsection \<open>Control flow\<close>

text \<open>
  A \<^verbatim>\<open>for\<close> loop whose body updates the variables \<open>s\<close>; an exception raised by the body
  leaves the loop.
\<close>

fun for_each :: "('a \<Rightarrow> 's \<Rightarrow> py_error + 's) \<Rightarrow> 'a list \<Rightarrow> 's \<Rightarrow> py_error + 's" where
  "for_each body [] s = Inr s"
| "for_each body (x # xs) s =
     (case body x s of Inl e \<Rightarrow> Inl e | Inr s' \<Rightarrow> for_each body xs s')"

lemma for_each_cong [fundef_cong]:
  "xs = ys \<Longrightarrow> s = t \<Longrightarrow> (\<And>x u. x \<in> set ys \<Longrightarrow> body x u = body' x u)
   \<Longrightarrow> for_each body xs s = for_each body' ys t"
proof (induction ys arbitrary: xs s t)
  case Nil
  then show ?case by simp
next
  case (Cons y ys)
  have "for_each body ys u = for_each body' ys u" for u
    using Cons.prems(3) by (intro Cons.IH) simp_all
  with Cons.prems show ?case by (simp split: sum.splits)
qed

subsection \<open>Row patterns\<close>

text \<open>
  \<^verbatim>\<open>_row_remaining\<close>: the sum \<open>R\<close> and the bombs \<open>Z\<close> the unrevealed cells of row \<open>r\<close> still
  owe, the number of those cells and their columns. \<^verbatim>\<open>row_sums[r]\<close> and \<^verbatim>\<open>row_bombs[r]\<close>
  raise IndexError on a list that is too short.
\<close>

definition row_remaining ::
  "nat \<Rightarrow> int list \<Rightarrow> int list \<Rightarrow> opened_map \<Rightarrow> py_error + (int \<times> int \<times> nat \<times> nat list)" where
  "row_remaining r row_sums row_bombs opened =
     (let S = sum_list (map snd (filter (\<lambda>((rr, cc), v). rr = int r) opened));
          Z_open = sum_list (map (\<lambda>_. 1) (filter (\<lambda>((rr, cc), v). rr = int r \<and> v = 0) opened))
      in if length row_sums \<le> r then Inl IndexError
         else
           let R = row_sums ! r - S in
           if length row_bombs \<le> r then Inl IndexError
           else
             let Z = row_bombs ! r - Z_open;
                 cs = filter (\<lambda>c. map_of opened (int r, int c) = None) [0..<N]
             in Inr (R, Z, length cs, cs))"

text \<open>
  The nested \<^verbatim>\<open>dfs\<close> of \<^verbatim>\<open>_enumerate_row_patterns\<close>. The list \<open>patterns\<close> it appends to is
  passed in and returned. \<open>row_fixed\<close> has \<open>N\<close> entries where it is built, so \<^verbatim>\<open>row_fixed[c]\<close>
  raises IndexError exactly when \<open>N < c\<close> (\<open>c = N\<close> returns before the read).
\<close>

function dfs ::
  "val option list \<Rightarrow> nat \<Rightarrow> int \<Rightarrow> int \<Rightarrow> val list \<Rightarrow> val list list \<Rightarrow> py_error + val list list" where
  "dfs row_fixed c rem_sum rem_bombs acc patterns =
     (let cols_unfixed_left = int (length (filter (\<lambda>i. row_fixed ! i = None) [c..<N])) in
      if rem_bombs < 0 \<or> rem_bombs > cols_unfixed_left then Inr patterns
      else
        let nonbomb_slots = cols_unfixed_left - rem_bombs;
            min_possible = nonbomb_slots * 1;
            max_possible = nonbomb_slots * 3
        in
        if rem_sum < min_possible \<or> rem_sum > max_possible then Inr patterns
        else if c = N then
          (if rem_sum = 0 \<and> rem_bombs = 0 then Inr (patterns @ [acc]) else Inr patterns)
        else if N < c then Inl IndexError
        else
          (case row_fixed ! c of
             Some v \<Rightarrow> dfs row_fixed (c + 1) rem_sum rem_bombs (acc @ [v]) patterns
           | None \<Rightarrow>
               (case (if rem_bombs > 0
                      then dfs row_fixed (c + 1) rem_sum (rem_bombs - 1) (acc @ [0]) patterns
                      else Inr patterns) of
                  Inl e \<Rightarrow> Inl e
                | Inr patterns1 \<Rightarrow>
                    for_each
                      (\<lambda>v ps.
                         let new_rem_sum = rem_sum - v;
                             new_cols_unfixed = cols_unfixed_left - 1;
                             b_left = rem_bombs;
                             nonbomb_slots_after = new_cols_unfixed - b_left;
                             min_p = max 0 nonbomb_slots_after * 1;
                             max_p = max 0 nonbomb_slots_after * 3
                         in
                         if new_rem_sum < min_p \<or> new_rem_sum > max_p then Inr ps
                         else dfs row_fixed (c + 1) new_rem_sum b_left (acc @ [v]) ps)
                      [1, 2, 3] patterns1)))"
  by pat_completeness auto
termination
  by (relation "measure (\<lambda>(row_fixed, c, rem_sum, rem_bombs, acc, patterns). N - c)") auto

declare dfs.simps [simp del]

text \<open>\<^verbatim>\<open>_enumerate_row_patterns\<close>; \<open>col_sums\<close> and \<open>col_bombs\<close> are parameters it never reads.\<close>

definition enumerate_row_patterns ::
  "nat \<Rightarrow> int list \<Rightarrow> int list \<Rightarrow> int list \<Rightarrow> int list \<Rightarrow> opened_map \<Rightarrow> py_error + val list list" where
  "enumerate_row_patterns r row_sums row_bombs col_sums col_bombs opened =
     (case row_remaining r row_sums row_bombs opened of
        Inl e \<Rightarrow> Inl e
      | Inr (R, Z, k, cs) \<Rightarrow>
          let row_fixed = map (\<lambda>c. map_of opened (int r, int c)) [0..<N]
          in dfs row_fixed 0 R Z [] [])"

subsection \<open>Board assembly\<close>

text \<open>
  The objects the nested \<^verbatim>\<open>dfs_row\<close> of \<^verbatim>\<open>_enumerate_all_boards\<close> reaches and can write: the
  dictionary \<open>opened\<close>, the working grid (\<open>None\<close> is an unset cell), the two column accumulators
  and the list of solutions. Every statement of \<^verbatim>\<open>dfs_row\<close> is a function from this state to
  the next one.
\<close>

record search_state =
  opened_dict :: opened_map
  grid :: "val option list list"
  col_sum :: "int list"
  col_bz :: "int list"
  solutions :: "val list list list"

text \<open>
  Lines 152-157: the patterns of every row, in row order. \<open>None\<close> is the early
  \<^verbatim>\<open>return []\<close> at the first row without a pattern.
\<close>

fun collect_row_patterns ::
  "int list \<Rightarrow> int list \<Rightarrow> int list \<Rightarrow> int list \<Rightarrow> opened_map \<Rightarrow> nat list \<Rightarrow> val list list list
   \<Rightarrow> py_error + val list list list option" where
  "collect_row_patterns row_sums row_bombs col_sums col_bombs opened [] all_row_patterns =
     Inr (Some all_row_patterns)"
| "collect_row_patterns row_sums row_bombs col_sums col_bombs opened (r # rs) all_row_patterns =
     (case enumerate_row_patterns r row_sums row_bombs col_sums col_bombs opened of
        Inl e \<Rightarrow> Inl e
      | Inr pats \<Rightarrow>
          if pats = [] then Inr None
          else collect_row_patterns row_sums row_bombs col_sums col_bombs opened rs
                 (all_row_patterns @ [pats]))"

text \<open>
  Lines 182-188: does the pattern agree with the cells of the row that are set, and what does
  it add to each column. The result is \<open>(ok, incr_sum, incr_bz)\<close>; after the \<^verbatim>\<open>break\<close> the
  increments are not read again. \<^verbatim>\<open>prev or 0\<close> is \<open>0\<close> for \<open>None\<close> and for \<open>0\<close>.
\<close>

fun check_row_pat ::
  "val list \<Rightarrow> val option list \<Rightarrow> nat list \<Rightarrow> int list \<Rightarrow> int list \<Rightarrow> py_error + bool \<times> int list \<times> int list" where
  "check_row_pat row_pat grid_r [] incr_sum incr_bz = Inr (True, incr_sum, incr_bz)"
| "check_row_pat row_pat grid_r (c # cs) incr_sum incr_bz =
     (if length row_pat \<le> c then Inl IndexError
      else
        let v = row_pat ! c; prev = grid_r ! c in
        if prev \<noteq> None \<and> prev \<noteq> Some v then Inr (False, incr_sum, incr_bz)
        else check_row_pat row_pat grid_r cs
               (incr_sum[c := v - (case prev of None \<Rightarrow> 0 | Some q \<Rightarrow> if q = 0 then 0 else q)])
               (incr_bz[c := (if v = 0 then 1 else 0) - (if prev = Some 0 then 1 else 0)]))"

text \<open>Lines 193-196: write the pattern into row \<open>r\<close> and add the increments.\<close>

definition place_row_pat :: "nat \<Rightarrow> val list \<Rightarrow> int list \<Rightarrow> int list \<Rightarrow> search_state \<Rightarrow> search_state" where
  "place_row_pat r row_pat incr_sum incr_bz st0 =
     fold (\<lambda>c st. st\<lparr>grid := (grid st)[r := (grid st ! r)[c := Some (row_pat ! c)]],
                      col_sum := (col_sum st)[c := col_sum st ! c + incr_sum ! c],
                      col_bz := (col_bz st)[c := col_bz st ! c + incr_bz ! c]\<rparr>)
       [0..<N] st0"

text \<open>
  Lines 199-211: the column pruning after row \<open>r\<close> is placed; the result is \<open>ok\<close>.
  \<^verbatim>\<open>col_sums[c]\<close> and \<^verbatim>\<open>col_bombs[c]\<close> raise IndexError on a list that is too short.
\<close>

fun prune_cols :: "int list \<Rightarrow> int list \<Rightarrow> nat \<Rightarrow> search_state \<Rightarrow> nat list \<Rightarrow> py_error + bool" where
  "prune_cols col_sums col_bombs r st [] = Inr True"
| "prune_cols col_sums col_bombs r st (c # cs) =
     (let rows_left = int (length (filter (\<lambda>rr. grid st ! rr ! c = None) [r + 1..<N])) in
      if length col_sums \<le> c \<or> length col_bombs \<le> c then Inl IndexError
      else
        (case col_bounds_so_far (col_sums ! c) (col_bombs ! c) (col_sum st ! c) (col_bz st ! c)
                rows_left of
           None \<Rightarrow> Inr False
         | Some (lo, hi) \<Rightarrow>
             if \<not> (lo \<le> col_sums ! c \<and> col_sums ! c \<le> hi) then Inr False
             else prune_cols col_sums col_bombs r st cs))"

text \<open>Lines 217-220: the rollback.\<close>

definition rollback :: "nat \<Rightarrow> int list \<Rightarrow> int list \<Rightarrow> search_state \<Rightarrow> search_state" where
  "rollback r incr_sum incr_bz st0 =
     fold (\<lambda>c st. st\<lparr>col_sum := (col_sum st)[c := col_sum st ! c - incr_sum ! c],
                      col_bz := (col_bz st)[c := col_bz st ! c - incr_bz ! c],
                      grid := (grid st)[r := (grid st ! r)[c := map_of (opened_dict st) (int r, int c)]]\<rparr>)
       [0..<N] st0"

text \<open>
  Lines 170-172: the exact column check of a full grid. The \<^verbatim>\<open>or\<close> reads \<^verbatim>\<open>col_bombs[c]\<close>
  only when the sums agree.
\<close>

fun cols_match :: "int list \<Rightarrow> int list \<Rightarrow> search_state \<Rightarrow> nat list \<Rightarrow> py_error + bool" where
  "cols_match col_sums col_bombs st [] = Inr True"
| "cols_match col_sums col_bombs st (c # cs) =
     (if length col_sums \<le> c then Inl IndexError
      else if col_sum st ! c \<noteq> col_sums ! c then Inr False
      else if length col_bombs \<le> c then Inl IndexError
      else if col_bz st ! c \<noteq> col_bombs ! c then Inr False
      else cols_match col_sums col_bombs st cs)"

text \<open>Line 173: the copy \<^verbatim>\<open>[[int(x) for x in row] for row in grid]\<close>; \<^verbatim>\<open>int(None)\<close> raises TypeError.\<close>

fun int_row :: "val option list \<Rightarrow> py_error + val list" where
  "int_row [] = Inr []"
| "int_row (x # xs) =
     (case x of
        None \<Rightarrow> Inl TypeError
      | Some v \<Rightarrow> (case int_row xs of Inl e \<Rightarrow> Inl e | Inr vs \<Rightarrow> Inr (v # vs)))"

fun int_grid :: "val option list list \<Rightarrow> py_error + val list list" where
  "int_grid [] = Inr []"
| "int_grid (row # rows) =
     (case int_row row of
        Inl e \<Rightarrow> Inl e
      | Inr vs \<Rightarrow> (case int_grid rows of Inl e \<Rightarrow> Inl e | Inr g \<Rightarrow> Inr (vs # g)))"

text \<open>
  \<^verbatim>\<open>dfs_row\<close>. \<open>all_row_patterns\<close>, \<open>col_sums\<close> and \<open>col_bombs\<close> are only read.
  \<^verbatim>\<open>all_row_patterns[r]\<close> raises IndexError past the end of the list.
\<close>

function dfs_row ::
  "val list list list \<Rightarrow> int list \<Rightarrow> int list \<Rightarrow> nat \<Rightarrow> search_state \<Rightarrow> py_error + search_state" where
  "dfs_row all_row_patterns col_sums col_bombs r st0 =
     (if r = N then
        (case cols_match col_sums col_bombs st0 [0..<N] of
           Inl e \<Rightarrow> Inl e
         | Inr False \<Rightarrow> Inr st0
         | Inr True \<Rightarrow>
             (case int_grid (grid st0) of
                Inl e \<Rightarrow> Inl e
              | Inr g \<Rightarrow> Inr (st0\<lparr>solutions := solutions st0 @ [g]\<rparr>)))
      else if length all_row_patterns \<le> r then Inl IndexError
      else
        for_each
          (\<lambda>row_pat st.
             case check_row_pat row_pat (grid st ! r) [0..<N] (replicate N 0) (replicate N 0) of
               Inl e \<Rightarrow> Inl e
             | Inr (False, incr_sum, incr_bz) \<Rightarrow> Inr st
             | Inr (True, incr_sum, incr_bz) \<Rightarrow>
                 (let st1 = place_row_pat r row_pat incr_sum incr_bz st in
                  case prune_cols col_sums col_bombs r st1 [0..<N] of
                    Inl e \<Rightarrow> Inl e
                  | Inr ok \<Rightarrow>
                      (case (if ok then dfs_row all_row_patterns col_sums col_bombs (r + 1) st1
                             else Inr st1) of
                         Inl e \<Rightarrow> Inl e
                       | Inr st2 \<Rightarrow> Inr (rollback r incr_sum incr_bz st2))))
          (all_row_patterns ! r) st0)"
  by pat_completeness auto
termination
  by (relation "measure (\<lambda>(all_row_patterns, col_sums, col_bombs, r, st0). length all_row_patterns - r)")
    auto

declare dfs_row.simps [simp del]

text \<open>Lines 162-165: the accumulators and the grid, seeded from \<open>opened\<close>.\<close>

definition initial_state :: "opened_map \<Rightarrow> search_state" where
  "initial_state opened =
     \<lparr>opened_dict = opened,
      grid = map (\<lambda>r. map (\<lambda>c. map_of opened (int r, int c)) [0..<N]) [0..<N],
      col_sum = map (\<lambda>c. sum_list (map (\<lambda>r. case map_of opened (int r, int c) of
                                              None \<Rightarrow> 0 | Some v \<Rightarrow> v) [0..<N])) [0..<N],
      col_bz = map (\<lambda>c. sum_list (map (\<lambda>r. 1)
                            (filter (\<lambda>r. map_of opened (int r, int c) = Some 0) [0..<N]))) [0..<N],
      solutions = []\<rparr>"

text \<open>
  \<^verbatim>\<open>_enumerate_all_boards\<close>, first with the state \<^verbatim>\<open>dfs_row(0)\<close> leaves behind (\<open>None\<close> when the
  function returned before the search), then as the list it returns.
\<close>

definition search_all_boards ::
  "int list \<Rightarrow> int list \<Rightarrow> int list \<Rightarrow> int list \<Rightarrow> opened_map \<Rightarrow> py_error + search_state option" where
  "search_all_boards row_sums row_bombs col_sums col_bombs opened =
     (case collect_row_patterns row_sums row_bombs col_sums col_bombs opened [0..<N] [] of
        Inl e \<Rightarrow> Inl e
      | Inr None \<Rightarrow> Inr None
      | Inr (Some all_row_patterns) \<Rightarrow>
          (case dfs_row all_row_patterns col_sums col_bombs 0 (initial_state opened) of
             Inl e \<Rightarrow> Inl e
           | Inr st \<Rightarrow> Inr (Some st)))"

definition enumerate_all_boards ::
  "int list \<Rightarrow> int list \<Rightarrow> int list \<Rightarrow> int list \<Rightarrow> opened_map \<Rightarrow> py_error + val list list list" where
  "enumerate_all_boards row_sums row_bombs col_sums col_bombs opened =
     (case search_all_boards row_sums row_bombs col_sums col_bombs opened of
        Inl e \<Rightarrow> Inl e
      | Inr None \<Rightarrow> Inr []
      | Inr (Some st) \<Rightarrow> Inr (solutions st))"

subsection \<open>Posteriors\<close>

text \<open>
  A Python float is modelled by the real number it denotes. Every floating-point operation
  rounds its exact result; the rounding function \<open>rnd\<close> of the platform is a parameter of the
  model. Negation is exact.
\<close>

definition fdiv :: "(real \<Rightarrow> real) \<Rightarrow> int \<Rightarrow> int \<Rightarrow> real" where
  "fdiv rnd a b = rnd (real_of_int a / real_of_int b)"

definition fmul :: "(real \<Rightarrow> real) \<Rightarrow> int \<Rightarrow> real \<Rightarrow> real" where
  "fmul rnd k x = rnd (real_of_int k * x)"

definition fadd :: "(real \<Rightarrow> real) \<Rightarrow> real \<Rightarrow> real \<Rightarrow> real" where
  "fadd rnd x y = rnd (x + y)"

text \<open>
  The record \<^verbatim>\<open>{"total": tot, "p": {0: p0, 1: p1, 2: p2, 3: p3}, "ev": ev}\<close>. A dictionary with
  the keys 0, 1, 2, 3 is the list of its four values, \<^verbatim>\<open>d[v]\<close> being \<open>d ! nat v\<close>; any other
  key raises KeyError.
\<close>

record posterior =
  rec_total :: int
  rec_p :: "real list"
  rec_ev :: real

text \<open>Line 235: the unrevealed coordinates in row-major order.\<close>

definition targets_of :: "opened_map \<Rightarrow> coord list" where
  "targets_of opened =
     concat (map (\<lambda>r. map (\<lambda>c. (int r, int c))
                         (filter (\<lambda>c. map_of opened (int r, int c) = None) [0..<N])) [0..<N])"

text \<open>Line 240: \<^verbatim>\<open>counts[(r, c)][v] += 1\<close>.\<close>

definition tally_incr :: "coord \<Rightarrow> val \<Rightarrow> (coord \<times> int list) list \<Rightarrow> py_error + (coord \<times> int list) list" where
  "tally_incr rc v counts =
     (case map_of counts rc of
        None \<Rightarrow> Inl KeyError
      | Some d \<Rightarrow>
          if v < 0 \<or> 3 < v then Inl KeyError
          else Inr (map (\<lambda>(k, d'). if k = rc then (k, d'[nat v := d' ! nat v + 1]) else (k, d'))
                      counts))"

text \<open>Lines 236-240: the tallies of every target over all boards.\<close>

definition tally_counts :: "opened_map \<Rightarrow> val list list list \<Rightarrow> py_error + (coord \<times> int list) list" where
  "tally_counts opened sols =
     (let targets = targets_of opened;
          counts = map (\<lambda>rc. (rc, [0, 0, 0, 0])) targets
      in for_each
           (\<lambda>g. for_each (\<lambda>(r, c). tally_incr (r, c) (g ! nat r ! nat c)) targets)
           sols counts)"

text \<open>Lines 242-252: the records, in the order of \<open>counts\<close>; a zero total is skipped.\<close>

fun post_of :: "(real \<Rightarrow> real) \<Rightarrow> (coord \<times> int list) list \<Rightarrow> (coord \<times> posterior) list" where
  "post_of rnd [] = []"
| "post_of rnd ((rc, d) # counts) =
     (let tot = sum_list d in
      if tot = 0 then post_of rnd counts
      else
        let p0 = fdiv rnd (d ! 0) tot;
            p1 = fdiv rnd (d ! 1) tot;
            p2 = fdiv rnd (d ! 2) tot;
            p3 = fdiv rnd (d ! 3) tot;
            ev = fadd rnd (fadd rnd (fmul rnd 1 p1) (fmul rnd 2 p2)) (fmul rnd 3 p3)
        in (rc, \<lparr>rec_total = tot, rec_p = [p0, p1, p2, p3], rec_ev = ev\<rparr>) # post_of rnd counts)"

definition compute_posteriors ::
  "(real \<Rightarrow> real) \<Rightarrow> int list \<Rightarrow> int list \<Rightarrow> int list \<Rightarrow> int list \<Rightarrow> opened_map
   \<Rightarrow> py_error + (coord \<times> posterior) list \<times> int" where
  "compute_posteriors rnd row_sums row_bombs col_sums col_bombs opened =
     (case enumerate_all_boards row_sums row_bombs col_sums col_bombs opened of
        Inl e \<Rightarrow> Inl e
      | Inr sols \<Rightarrow>
          if sols = [] then Inr ([], 0)
          else
            (case tally_counts opened sols of
               Inl e \<Rightarrow> Inl e
             | Inr counts \<Rightarrow> Inr (post_of rnd counts, int (length sols))))"

subsection \<open>Recommendation\<close>

text \<open>
  The key \<^verbatim>\<open>(kv[1]["p"][0], -kv[1]["ev"])\<close> and Python's order on pairs: the first components
  that differ decide.
\<close>

definition safest_key :: "coord \<times> posterior \<Rightarrow> real \<times> real" where
  "safest_key kv = (rec_p (snd kv) ! 0, - rec_ev (snd kv))"

definition key_less :: "real \<times> real \<Rightarrow> real \<times> real \<Rightarrow> bool" where
  "key_less a b = (if fst a \<noteq> fst b then fst a < fst b else snd a < snd b)"

text \<open>\<^verbatim>\<open>min(items, key=f)\<close> keeps the first item whose key is least.\<close>

fun min_by_key :: "('a \<Rightarrow> real \<times> real) \<Rightarrow> 'a \<Rightarrow> 'a list \<Rightarrow> 'a" where
  "min_by_key f best [] = best"
| "min_by_key f best (x # xs) = min_by_key f (if key_less (f x) (f best) then x else best) xs"

definition choose_next_safest :: "(coord \<times> posterior) list \<Rightarrow> (coord \<times> posterior) option" where
  "choose_next_safest posteriors =
     (case posteriors of
        [] \<Rightarrow> None
      | kv # rest \<Rightarrow> Some (min_by_key safest_key kv rest))"

section \<open>The solve call and the caller's dictionary\<close>

text \<open>
  \<^verbatim>\<open>opened\<close> is a dictionary object of the caller; \<^verbatim>\<open>compute_posteriors\<close> receives a reference to
  it and passes the reference on. To say what a call leaves in that object, every function
  that holds the reference is written here as a function of the content of the dictionary
  that returns, next to its result or its exception, the content the dictionary has when
  the call ends. The suffix \<open>_st\<close> marks these functions.
\<close>

subsection \<open>Operations on a dictionary\<close>

text \<open>
  The operations of \<^verbatim>\<open>dict\<close> that the source applies to \<open>opened\<close>: \<^verbatim>\<open>opened.items()\<close>,
  \<^verbatim>\<open>opened.get(k)\<close>, \<^verbatim>\<open>opened.get(k, default)\<close> and \<^verbatim>\<open>k in opened\<close>. Each returns its value and
  the dictionary.
\<close>

definition dict_items :: "opened_map \<Rightarrow> (coord \<times> val) list \<times> opened_map" where
  "dict_items d = (d, d)"

definition dict_get :: "coord \<Rightarrow> opened_map \<Rightarrow> val option \<times> opened_map" where
  "dict_get k d = (map_of d k, d)"

definition dict_get_default :: "coord \<Rightarrow> val \<Rightarrow> opened_map \<Rightarrow> val \<times> opened_map" where
  "dict_get_default k dflt d = ((case map_of d k of None \<Rightarrow> dflt | Some v \<Rightarrow> v), d)"

definition dict_contains :: "coord \<Rightarrow> opened_map \<Rightarrow> bool \<times> opened_map" where
  "dict_contains k d = (map_of d k \<noteq> None, d)"

text \<open>
  Line 341, \<^verbatim>\<open>opened[best_rc] = v\<close>, in \<^verbatim>\<open>interactive_game\<close>: the one statement of the program
  that writes the dictionary. It runs between two solve calls. A key that is present keeps
  its place, a new key goes to the end.
\<close>

definition dict_setitem :: "coord \<Rightarrow> val \<Rightarrow> opened_map \<Rightarrow> unit \<times> opened_map" where
  "dict_setitem k v d =
     ((), if map_of d k = None then d @ [(k, v)]
          else map (\<lambda>(k', v'). if k' = k then (k', v) else (k', v')) d)"

text \<open>A list comprehension whose element, or whose condition, works on the state \<open>s\<close>.\<close>

fun map_st :: "('a \<Rightarrow> 's \<Rightarrow> 'b \<times> 's) \<Rightarrow> 'a list \<Rightarrow> 's \<Rightarrow> 'b list \<times> 's" where
  "map_st f [] s = ([], s)"
| "map_st f (x # xs) s =
     (case f x s of (y, s1) \<Rightarrow> (case map_st f xs s1 of (ys, s2) \<Rightarrow> (y # ys, s2)))"

fun filter_st :: "('a \<Rightarrow> 's \<Rightarrow> bool \<times> 's) \<Rightarrow> 'a list \<Rightarrow> 's \<Rightarrow> 'a list \<times> 's" where
  "filter_st f [] s = ([], s)"
| "filter_st f (x # xs) s =
     (case f x s of (b, s1) \<Rightarrow>
        (case filter_st f xs s1 of (ys, s2) \<Rightarrow> (if b then x # ys else ys, s2)))"

text \<open>
  A \<^verbatim>\<open>for\<close> loop over the state \<open>s\<close> whose body may raise: the exception leaves the loop with
  the state reached so far.
\<close>

fun for_each_st :: "('a \<Rightarrow> 's \<Rightarrow> py_error option \<times> 's) \<Rightarrow> 'a list \<Rightarrow> 's \<Rightarrow> py_error option \<times> 's" where
  "for_each_st body [] s = (None, s)"
| "for_each_st body (x # xs) s =
     (case body x s of
        (Some e, s') \<Rightarrow> (Some e, s')
      | (None, s') \<Rightarrow> for_each_st body xs s')"

lemma for_each_st_cong [fundef_cong]:
  "xs = ys \<Longrightarrow> s = t \<Longrightarrow> (\<And>x u. x \<in> set ys \<Longrightarrow> body x u = body' x u)
   \<Longrightarrow> for_each_st body xs s = for_each_st body' ys t"
proof (induction ys arbitrary: xs s t)
  case Nil
  then show ?case by simp
next
  case (Cons y ys)
  have "for_each_st body ys u = for_each_st body' ys u" for u
    using Cons.prems(3) by (intro Cons.IH) simp_all
  with Cons.prems show ?case by (simp split: prod.splits option.splits)
qed

subsection \<open>Row patterns\<close>

text \<open>\<^verbatim>\<open>_row_remaining\<close>, lines 81-86.\<close>

definition row_remaining_st ::
  "nat \<Rightarrow> int list \<Rightarrow> int list \<Rightarrow> opened_map
   \<Rightarrow> (py_error + (int \<times> int \<times> nat \<times> nat list)) \<times> opened_map" where
  "row_remaining_st r row_sums row_bombs d0 =
     (case dict_items d0 of (items1, d1) \<Rightarrow>
        (let S = sum_list (map snd (filter (\<lambda>((rr, cc), v). rr = int r) items1)) in
         case dict_items d1 of (items2, d2) \<Rightarrow>
           (let Z_open = sum_list (map (\<lambda>_. 1)
                           (filter (\<lambda>((rr, cc), v). rr = int r \<and> v = 0) items2))
            in if length row_sums \<le> r then (Inl IndexError, d2)
               else
                 let R = row_sums ! r - S in
                 if length row_bombs \<le> r then (Inl IndexError, d2)
                 else
                   let Z = row_bombs ! r - Z_open in
                   case filter_st
                          (\<lambda>c d. case dict_contains (int r, int c) d of (b, d') \<Rightarrow> (\<not> b, d'))
                          [0..<N] d2 of
                     (cs, d3) \<Rightarrow> (Inr (R, Z, length cs, cs), d3))))"

text \<open>
  \<^verbatim>\<open>_enumerate_row_patterns\<close>, lines 97-144. The nested \<^verbatim>\<open>dfs\<close> works on \<open>row_fixed\<close>,
  \<open>patterns\<close> and its arguments; it holds no reference to the dictionary.
\<close>

definition enumerate_row_patterns_st ::
  "nat \<Rightarrow> int list \<Rightarrow> int list \<Rightarrow> int list \<Rightarrow> int list \<Rightarrow> opened_map
   \<Rightarrow> (py_error + val list list) \<times> opened_map" where
  "enumerate_row_patterns_st r row_sums row_bombs col_sums col_bombs d0 =
     (case row_remaining_st r row_sums row_bombs d0 of
        (Inl e, d1) \<Rightarrow> (Inl e, d1)
      | (Inr (R, Z, k, cs), d1) \<Rightarrow>
          (case map_st (\<lambda>c. dict_get (int r, int c)) [0..<N] d1 of
             (row_fixed, d2) \<Rightarrow> (dfs row_fixed 0 R Z [] [], d2)))"

subsection \<open>Board assembly\<close>

text \<open>Lines 152-157.\<close>

fun collect_row_patterns_st ::
  "int list \<Rightarrow> int list \<Rightarrow> int list \<Rightarrow> int list \<Rightarrow> nat list \<Rightarrow> val list list list \<Rightarrow> opened_map
   \<Rightarrow> (py_error + val list list list option) \<times> opened_map" where
  "collect_row_patterns_st row_sums row_bombs col_sums col_bombs [] all_row_patterns d =
     (Inr (Some all_row_patterns), d)"
| "collect_row_patterns_st row_sums row_bombs col_sums col_bombs (r # rs) all_row_patterns d =
     (case enumerate_row_patterns_st r row_sums row_bombs col_sums col_bombs d of
        (Inl e, d1) \<Rightarrow> (Inl e, d1)
      | (Inr pats, d1) \<Rightarrow>
          if pats = [] then (Inr None, d1)
          else collect_row_patterns_st row_sums row_bombs col_sums col_bombs rs
                 (all_row_patterns @ [pats]) d1)"

text \<open>
  Lines 159-165: \<open>solutions\<close>, \<open>col_sum\<close>, \<open>col_bz\<close> and \<open>grid\<close> are built, in this order, from
  reads of the dictionary. From here on the nested \<^verbatim>\<open>dfs_row\<close> reaches these four objects and
  the dictionary: the state is a \<^typ>\<open>search_state\<close>.
\<close>

definition initial_state_st :: "opened_map \<Rightarrow> search_state" where
  "initial_state_st d0 =
     (case map_st
             (\<lambda>c d. case map_st (\<lambda>r. dict_get_default (int r, int c) 0) [0..<N] d of
                       (vs, d') \<Rightarrow> (sum_list vs, d'))
             [0..<N] d0 of
        (col_sum0, d1) \<Rightarrow>
          (case map_st
                  (\<lambda>c d. case filter_st
                                 (\<lambda>r d. case dict_get (int r, int c) d of
                                           (v, d') \<Rightarrow> (v = Some 0, d'))
                                 [0..<N] d of
                            (rs, d') \<Rightarrow> (sum_list (map (\<lambda>r. 1) rs), d'))
                  [0..<N] d1 of
             (col_bz0, d2) \<Rightarrow>
               (case map_st (\<lambda>r. map_st (\<lambda>c. dict_get (int r, int c)) [0..<N]) [0..<N] d2 of
                  (grid0, d3) \<Rightarrow>
                    \<lparr>opened_dict = d3, grid = grid0, col_sum = col_sum0, col_bz = col_bz0,
                     solutions = []\<rparr>)))"

text \<open>
  Lines 217-220: the rollback. \<^verbatim>\<open>opened.get((r, c))\<close> is a call on the dictionary of the
  state.
\<close>

definition rollback_st :: "nat \<Rightarrow> int list \<Rightarrow> int list \<Rightarrow> search_state \<Rightarrow> search_state" where
  "rollback_st r incr_sum incr_bz st0 =
     fold (\<lambda>c st.
             case dict_get (int r, int c) (opened_dict st) of
               (v, d') \<Rightarrow>
                 st\<lparr>col_sum := (col_sum st)[c := col_sum st ! c - incr_sum ! c],
                    col_bz := (col_bz st)[c := col_bz st ! c - incr_bz ! c],
                    opened_dict := d',
                    grid := (grid st)[r := (grid st ! r)[c := v]]\<rparr>)
       [0..<N] st0"

text \<open>
  \<^verbatim>\<open>dfs_row\<close>, lines 167-220, with the state it leaves behind also when it raises: an
  exception of the column pruning or of a deeper call leaves the row placed, since the
  rollback is not reached.
\<close>

function dfs_row_st ::
  "val list list list \<Rightarrow> int list \<Rightarrow> int list \<Rightarrow> nat \<Rightarrow> search_state
   \<Rightarrow> py_error option \<times> search_state" where
  "dfs_row_st all_row_patterns col_sums col_bombs r st0 =
     (if r = N then
        (case cols_match col_sums col_bombs st0 [0..<N] of
           Inl e \<Rightarrow> (Some e, st0)
         | Inr False \<Rightarrow> (None, st0)
         | Inr True \<Rightarrow>
             (case int_grid (grid st0) of
                Inl e \<Rightarrow> (Some e, st0)
              | Inr g \<Rightarrow> (None, st0\<lparr>solutions := solutions st0 @ [g]\<rparr>)))
      else if length all_row_patterns \<le> r then (Some IndexError, st0)
      else
        for_each_st
          (\<lambda>row_pat st.
             case check_row_pat row_pat (grid st ! r) [0..<N] (replicate N 0) (replicate N 0) of
               Inl e \<Rightarrow> (Some e, st)
             | Inr (False, incr_sum, incr_bz) \<Rightarrow> (None, st)
             | Inr (True, incr_sum, incr_bz) \<Rightarrow>
                 (let st1 = place_row_pat r row_pat incr_sum incr_bz st in
                  case prune_cols col_sums col_bombs r st1 [0..<N] of
                    Inl e \<Rightarrow> (Some e, st1)
                  | Inr ok \<Rightarrow>
                      (case (if ok then dfs_row_st all_row_patterns col_sums col_bombs (r + 1) st1
                             else (None, st1)) of
                         (Some e, st2) \<Rightarrow> (Some e, st2)
                       | (None, st2) \<Rightarrow> (None, rollback_st r incr_sum incr_bz st2))))
          (all_row_patterns ! r) st0)"
  by pat_completeness auto
termination
  by (relation "measure (\<lambda>(all_row_patterns, col_sums, col_bombs, r, st0). length all_row_patterns - r)")
    auto

declare dfs_row_st.simps [simp del]

text \<open>
  \<^verbatim>\<open>_enumerate_all_boards\<close>, lines 151-225: the result or the exception, and the dictionary
  after the call.
\<close>

definition enumerate_all_boards_st ::
  "int list \<Rightarrow> int list \<Rightarrow> int list \<Rightarrow> int list \<Rightarrow> opened_map
   \<Rightarrow> (py_error + val list list list) \<times> opened_map" where
  "enumerate_all_boards_st row_sums row_bombs col_sums col_bombs d0 =
     (case collect_row_patterns_st row_sums row_bombs col_sums col_bombs [0..<N] [] d0 of
        (Inl e, d1) \<Rightarrow> (Inl e, d1)
      | (Inr None, d1) \<Rightarrow> (Inr [], d1)
      | (Inr (Some all_row_patterns), d1) \<Rightarrow>
          (case dfs_row_st all_row_patterns col_sums col_bombs 0 (initial_state_st d1) of
             (Some e, st) \<Rightarrow> (Inl e, opened_dict st)
           | (None, st) \<Rightarrow> (Inr (solutions st), opened_dict st)))"

subsection \<open>Posteriors\<close>

text \<open>Line 235.\<close>

definition targets_st :: "opened_map \<Rightarrow> coord list \<times> opened_map" where
  "targets_st d0 =
     (case map_st
             (\<lambda>r d. case filter_st
                            (\<lambda>c d. case dict_contains (int r, int c) d of (b, d') \<Rightarrow> (\<not> b, d'))
                            [0..<N] d of
                       (cs, d') \<Rightarrow> (map (\<lambda>c. (int r, int c)) cs, d'))
             [0..<N] d0 of
        (rows, d1) \<Rightarrow> (concat rows, d1))"

text \<open>Lines 236-240, from the list of targets; \<open>counts\<close> is a dictionary of the call's own.\<close>

definition tally_targets :: "coord list \<Rightarrow> val list list list \<Rightarrow> py_error + (coord \<times> int list) list" where
  "tally_targets targets sols =
     for_each
       (\<lambda>g. for_each (\<lambda>(r, c). tally_incr (r, c) (g ! nat r ! nat c)) targets)
       sols (map (\<lambda>rc. (rc, [0, 0, 0, 0])) targets)"

text \<open>\<^verbatim>\<open>compute_posteriors\<close>, lines 231-253.\<close>

definition compute_posteriors_st ::
  "(real \<Rightarrow> real) \<Rightarrow> int list \<Rightarrow> int list \<Rightarrow> int list \<Rightarrow> int list \<Rightarrow> opened_map
   \<Rightarrow> (py_error + (coord \<times> posterior) list \<times> int) \<times> opened_map" where
  "compute_posteriors_st rnd row_sums row_bombs col_sums col_bombs d0 =
     (case enumerate_all_boards_st row_sums row_bombs col_sums col_bombs d0 of
        (Inl e, d1) \<Rightarrow> (Inl e, d1)
      | (Inr sols, d1) \<Rightarrow>
          if sols = [] then (Inr ([], 0), d1)
          else
            (case targets_st d1 of
               (targets, d2) \<Rightarrow>
                 (case tally_targets targets sols of
                    Inl e \<Rightarrow> (Inl e, d2)
                  | Inr counts \<Rightarrow> (Inr (post_of rnd counts, int (length sols)), d2))))"

section \<open>Facts about the row search\<close>

lemma upt_N: "[0..<N] = [0, 1, 2, 3, 4]"
  by (simp add: N_def upt_rec)

lemma sum_list_ones: "sum_list (map (\<lambda>_. 1::int) xs) = int (length xs)"
  by (induction xs) simp_all

lemma dfs_negative_bombs:
  "rem_bombs < 0 \<Longrightarrow> dfs row_fixed c rem_sum rem_bombs acc patterns = Inr patterns"
  by (subst dfs.simps) simp

lemma dfs_all_threes: "dfs [None, None, None, None, None] 0 15 0 [] [] = Inr [[3, 3, 3, 3, 3]]"
  by (simp add: dfs.simps N_def upt_rec)

fun row_ref :: "val option list \<Rightarrow> int \<Rightarrow> int \<Rightarrow> val list list" where
  "row_ref [] s b = (if s = 0 \<and> b = 0 then [[]] else [])"
| "row_ref (Some v # fs) s b = map ((#) v) (row_ref fs s b)"
| "row_ref (None # fs) s b =
     map ((#) 0) (row_ref fs s (b - 1)) @ map ((#) 1) (row_ref fs (s - 1) b)
     @ map ((#) 2) (row_ref fs (s - 2) b) @ map ((#) 3) (row_ref fs (s - 3) b)"

definition free_cells :: "val option list \<Rightarrow> int" where
  "free_cells fs = int (length (filter (\<lambda>f. f = None) fs))"

lemma free_cells_simps [simp]:
  "free_cells [] = 0"
  "free_cells (None # fs) = free_cells fs + 1"
  "free_cells (Some v # fs) = free_cells fs"
  by (simp_all add: free_cells_def)

lemma row_ref_bounds:
  "row_ref fs s b \<noteq> [] \<Longrightarrow>
   0 \<le> b \<and> b \<le> free_cells fs \<and> free_cells fs - b \<le> s \<and> s \<le> 3 * (free_cells fs - b)"
proof (induction fs arbitrary: s b)
  case Nil
  then show ?case by (simp split: if_splits)
next
  case (Cons f fs)
  show ?case
  proof (cases f)
    case None
    with Cons.prems consider "row_ref fs s (b - 1) \<noteq> []" | "row_ref fs (s - 1) b \<noteq> []"
      | "row_ref fs (s - 2) b \<noteq> []" | "row_ref fs (s - 3) b \<noteq> []"
      by auto
    then show ?thesis
    proof cases
      case 1 from Cons.IH [OF 1] None show ?thesis by simp
    next
      case 2 from Cons.IH [OF 2] None show ?thesis by simp
    next
      case 3 from Cons.IH [OF 3] None show ?thesis by simp
    next
      case 4 from Cons.IH [OF 4] None show ?thesis by simp
    qed
  next
    case (Some v)
    with Cons.prems have "row_ref fs s b \<noteq> []" by simp
    from Cons.IH [OF this] Some show ?thesis by simp
  qed
qed

lemma drop_conv_nth_upt: "drop c xs = map ((!) xs) [c..<length xs]"
proof -
  have "drop c (map ((!) xs) [0..<length xs]) = map ((!) xs) [c..<length xs]"
    by (simp add: drop_map)
  then show ?thesis by (simp add: map_nth)
qed

lemma unfixed_left_conv:
  "length row_fixed = N \<Longrightarrow>
   int (length (filter (\<lambda>i. row_fixed ! i = None) [c..<N])) = free_cells (drop c row_fixed)"
  by (simp add: free_cells_def drop_conv_nth_upt [of c row_fixed] filter_map comp_def)

lemma dfs_base:
  "length row_fixed = N \<Longrightarrow>
   dfs row_fixed N s b acc pats = Inr (pats @ map ((@) acc) (row_ref [] s b))"
  by (subst dfs.simps) (simp add: Let_def)

lemma dfs_pruned:
  assumes "length row_fixed = N"
    and "b < 0 \<or> free_cells (drop c row_fixed) < b \<or> s < free_cells (drop c row_fixed) - b
         \<or> (free_cells (drop c row_fixed) - b) * 3 < s"
  shows "dfs row_fixed c s b acc pats = Inr pats"
  using assms(2) by (subst dfs.simps) (auto simp: Let_def unfixed_left_conv [OF assms(1)])

lemma row_ref_pruned:
  assumes "b < 0 \<or> free_cells fs < b \<or> s < free_cells fs - b \<or> (free_cells fs - b) * 3 < s"
  shows "row_ref fs s b = []"
proof (rule ccontr)
  assume "row_ref fs s b \<noteq> []"
  from row_ref_bounds [OF this] assms show False by auto
qed

lemma drop_step: "c < length xs \<Longrightarrow> drop c xs = xs ! c # drop (Suc c) xs"
  by (simp add: Cons_nth_drop_Suc)

lemma dfs_step_Some:
  assumes "length row_fixed = N" and "c < N" and "row_fixed ! c = Some v"
    and "\<not> (b < 0 \<or> free_cells (drop c row_fixed) < b \<or> s < free_cells (drop c row_fixed) - b
         \<or> (free_cells (drop c row_fixed) - b) * 3 < s)"
  shows "dfs row_fixed c s b acc pats = dfs row_fixed (Suc c) s b (acc @ [v]) pats"
  using assms(2-4) by (subst dfs.simps) (simp add: Let_def unfixed_left_conv [OF assms(1)])

lemma dfs_step_None:
  assumes "length row_fixed = N" and "c < N" and "row_fixed ! c = None"
    and "\<not> (b < 0 \<or> free_cells (drop c row_fixed) < b \<or> s < free_cells (drop c row_fixed) - b
         \<or> (free_cells (drop c row_fixed) - b) * 3 < s)"
  shows "dfs row_fixed c s b acc pats =
    (case (if 0 < b then dfs row_fixed (Suc c) s (b - 1) (acc @ [0]) pats else Inr pats) of
       Inl e \<Rightarrow> Inl e
     | Inr p1 \<Rightarrow>
         for_each
           (\<lambda>v ps. if s - v < max 0 (free_cells (drop (Suc c) row_fixed) - b)
                      \<or> max 0 (free_cells (drop (Suc c) row_fixed) - b) * 3 < s - v
                    then Inr ps
                    else dfs row_fixed (Suc c) (s - v) b (acc @ [v]) ps)
           [1, 2, 3] p1)"
proof -
  have "free_cells (drop c row_fixed) = free_cells (drop (Suc c) row_fixed) + 1"
    using assms(1-3) by (simp add: drop_step)
  then show ?thesis
    using assms(2-4)
    by (subst dfs.simps)
      (simp add: Let_def unfixed_left_conv [OF assms(1)] del: for_each.simps
         cong: if_cong sum.case_cong)
qed

lemma dfs_row_ref:
  "length row_fixed = N \<Longrightarrow> c \<le> N \<Longrightarrow>
   dfs row_fixed c s b acc pats = Inr (pats @ map ((@) acc) (row_ref (drop c row_fixed) s b))"
proof (induction "N - c" arbitrary: c s b acc pats)
  case 0
  then show ?case by (simp add: dfs_base)
next
  case (Suc k)
  then have c: "c < N" and len: "length row_fixed = N" by simp_all
  let ?fs = "drop (Suc c) row_fixed"
  let ?n = "free_cells ?fs"
  have dr: "drop c row_fixed = row_fixed ! c # ?fs"
    using c len by (simp add: drop_step)
  have IH: "dfs row_fixed (Suc c) s' b' acc' pats'
            = Inr (pats' @ map ((@) acc') (row_ref ?fs s' b'))" for s' b' acc' pats'
    using Suc.hyps(1) [of "Suc c"] Suc.hyps(2) len c by simp
  let ?pruned = "b < 0 \<or> free_cells (drop c row_fixed) < b \<or> s < free_cells (drop c row_fixed) - b
         \<or> (free_cells (drop c row_fixed) - b) * 3 < s"
  show ?case
  proof (cases ?pruned)
    case True
    then show ?thesis
      by (simp only: dfs_pruned [OF len True] row_ref_pruned [OF True]) simp
  next
    case False
    show ?thesis
    proof (cases "row_fixed ! c")
      case (Some v)
      show ?thesis
        by (simp add: dfs_step_Some [OF len c Some False] IH dr Some comp_def)
    next
      case None
      have e0: "row_ref ?fs s (b - 1) = []" if "\<not> 0 < b"
        using that by (intro row_ref_pruned) simp
      have ev: "row_ref ?fs (s - v) b = []"
        if "s - v < max 0 (?n - b) \<or> max 0 (?n - b) * 3 < s - v" for v
      proof (rule ccontr)
        assume "row_ref ?fs (s - v) b \<noteq> []"
        from row_ref_bounds [OF this] that show False by auto
      qed
      have step: "(if s - v < max 0 (?n - b) \<or> max 0 (?n - b) * 3 < s - v then Inr ps
                   else dfs row_fixed (Suc c) (s - v) b (acc @ [v]) ps)
                  = Inr (ps @ map ((@) acc) (map ((#) v) (row_ref ?fs (s - v) b)))" for v ps
        using ev [of v] by (simp add: IH comp_def)
      have first: "(if 0 < b then dfs row_fixed (Suc c) s (b - 1) (acc @ [0]) pats else Inr pats)
                  = Inr (pats @ map ((@) acc) (map ((#) 0) (row_ref ?fs s (b - 1))))"
        using e0 by (simp add: IH comp_def)
      show ?thesis
        by (simp add: dfs_step_None [OF len c None False] first step dr None)
    qed
  qed
qed

definition agrees :: "val option list \<Rightarrow> val list \<Rightarrow> bool" where
  "agrees fs p = list_all2 (\<lambda>f v. case f of Some w \<Rightarrow> v = w | None \<Rightarrow> v \<in> {0, 1, 2, 3}) fs p"

definition free_bombs :: "val option list \<Rightarrow> val list \<Rightarrow> int" where
  "free_bombs fs p = int (length (filter (\<lambda>(f, v). f = None \<and> v = 0) (zip fs p)))"

definition free_sum :: "val option list \<Rightarrow> val list \<Rightarrow> int" where
  "free_sum fs p = sum_list (map snd (filter (\<lambda>(f, v). f = None) (zip fs p)))"

lemma agrees_Nil [simp]: "agrees [] p = (p = [])"
  by (simp add: agrees_def)

lemma agrees_Cons:
  "agrees (f # fs) p =
     (\<exists>v q. p = v # q \<and> (case f of Some w \<Rightarrow> v = w | None \<Rightarrow> v \<in> {0, 1, 2, 3}) \<and> agrees fs q)"
  by (auto simp: agrees_def list_all2_Cons1)

lemma free_Cons [simp]:
  "free_bombs (f # fs) (v # q) = (if f = None \<and> v = 0 then 1 else 0) + free_bombs fs q"
  "free_sum (f # fs) (v # q) = (if f = None then v else 0) + free_sum fs q"
  by (simp_all add: free_bombs_def free_sum_def)

lemma free_Nil [simp]: "free_bombs [] p = 0" "free_sum [] p = 0"
  by (simp_all add: free_bombs_def free_sum_def)

lemma row_ref_set:
  "set (row_ref fs s b) = {p. agrees fs p \<and> free_bombs fs p = b \<and> free_sum fs p = s}"
proof (induction fs arbitrary: s b)
  case Nil
  then show ?case by auto
next
  case (Cons f fs)
  show ?case
  proof (cases f)
    case None
    show ?thesis
      unfolding None row_ref.simps set_append set_map Cons.IH
      by (auto simp: agrees_Cons)
  next
    case (Some w)
    show ?thesis
      unfolding Some row_ref.simps set_map Cons.IH
      by (auto simp: agrees_Cons)
  qed
qed

lemma row_ref_distinct: "distinct (row_ref fs s b)"
proof (induction fs arbitrary: s b)
  case Nil
  then show ?case by simp
next
  case (Cons f fs)
  show ?case
  proof (cases f)
    case None
    have d: "distinct (map ((#) v) (row_ref fs s' b'))" for v s' b'
      by (simp add: distinct_map Cons.IH)
    show ?thesis
      unfolding None row_ref.simps
      by (simp only: distinct_append d) auto
  next
    case (Some w)
    show ?thesis
      unfolding Some row_ref.simps by (simp add: distinct_map Cons.IH)
  qed
qed

definition row_fixed_of :: "opened_map \<Rightarrow> nat \<Rightarrow> val option list" where
  "row_fixed_of opened r = map (\<lambda>c. map_of opened (int r, int c)) [0..<N]"

definition cell_val :: "val option \<Rightarrow> int" where
  "cell_val x = (case x of None \<Rightarrow> 0 | Some v \<Rightarrow> v)"

definition colsum :: "val option list list \<Rightarrow> nat \<Rightarrow> int" where
  "colsum g c = sum_list (map (\<lambda>row. cell_val (row ! c)) g)"

definition colbz :: "val option list list \<Rightarrow> nat \<Rightarrow> int" where
  "colbz g c = int (length (filter (\<lambda>row. row ! c = Some 0) g))"

definition grid_of :: "opened_map \<Rightarrow> val list list \<Rightarrow> val option list list" where
  "grid_of opened acc = map (map Some) acc @ map (row_fixed_of opened) [length acc..<N]"

definition state_of :: "opened_map \<Rightarrow> val list list \<Rightarrow> val list list list \<Rightarrow> search_state" where
  "state_of opened acc sols =
     \<lparr>opened_dict = opened, grid = grid_of opened acc,
      col_sum = map (colsum (grid_of opened acc)) [0..<N],
      col_bz = map (colbz (grid_of opened acc)) [0..<N],
      solutions = sols\<rparr>"

lemma length_row_fixed_of [simp]: "length (row_fixed_of opened r) = N"
  by (simp add: row_fixed_of_def)

lemma nth_row_fixed_of [simp]: "c < N \<Longrightarrow> row_fixed_of opened r ! c = map_of opened (int r, int c)"
  by (simp add: row_fixed_of_def)

lemma colsum_append [simp]: "colsum (g @ h) c = colsum g c + colsum h c"
  by (simp add: colsum_def)

lemma colbz_append [simp]: "colbz (g @ h) c = colbz g c + colbz h c"
  by (simp add: colbz_def)

lemma colsum_Cons [simp]: "colsum (row # g) c = cell_val (row ! c) + colsum g c"
  by (simp add: colsum_def)

lemma colbz_Cons [simp]: "colbz (row # g) c = (if row ! c = Some 0 then 1 else 0) + colbz g c"
  by (simp add: colbz_def)

lemma colsum_Nil [simp]: "colsum [] c = 0"
  by (simp add: colsum_def)

lemma colbz_Nil [simp]: "colbz [] c = 0"
  by (simp add: colbz_def)

lemma initial_state_conv: "initial_state opened = state_of opened [] []"
proof -
  have g: "grid_of opened [] = map (row_fixed_of opened) [0..<N]"
    by (simp add: grid_of_def)
  have s: "colsum (grid_of opened []) c
           = sum_list (map (\<lambda>r. case map_of opened (int r, int c) of None \<Rightarrow> 0 | Some v \<Rightarrow> v) [0..<N])"
    if "c < N" for c
    using that by (simp add: g colsum_def comp_def cell_val_def)
  have b: "colbz (grid_of opened []) c
           = sum_list (map (\<lambda>r. 1) (filter (\<lambda>r. map_of opened (int r, int c) = Some 0) [0..<N]))"
    if "c < N" for c
    using that by (simp add: g colbz_def filter_map comp_def sum_list_ones)
  have gs: "map (\<lambda>r. map (\<lambda>c. map_of opened (int r, int c)) [0..<N]) [0..<N] = grid_of opened []"
    by (simp add: g row_fixed_of_def)
  have cs: "map (\<lambda>c. sum_list (map (\<lambda>r. case map_of opened (int r, int c) of
                                              None \<Rightarrow> 0 | Some v \<Rightarrow> v) [0..<N])) [0..<N]
            = map (colsum (grid_of opened [])) [0..<N]"
    by (rule map_cong) (simp_all add: s)
  have cb: "map (\<lambda>c. sum_list (map (\<lambda>r. 1)
                            (filter (\<lambda>r. map_of opened (int r, int c) = Some 0) [0..<N]))) [0..<N]
            = map (colbz (grid_of opened [])) [0..<N]"
    by (rule map_cong) (simp_all add: b)
  show ?thesis
    by (simp only: initial_state_def state_of_def gs cs cb)
qed

text \<open>Pointwise updates over an index range.\<close>

lemma fold_pointwise:
  "k \<le> length xs \<Longrightarrow>
   fold (\<lambda>c ys. ys[c := h c (ys ! c)]) [0..<k] xs = map (\<lambda>c. h c (xs ! c)) [0..<k] @ drop k xs"
proof (induction k)
  case 0
  then show ?case by simp
next
  case (Suc k)
  then have k: "k < length xs" by simp
  have "(map (\<lambda>c. h c (xs ! c)) [0..<k] @ drop k xs)[k := v]
        = map (\<lambda>c. h c (xs ! c)) [0..<k] @ v # drop (Suc k) xs" for v
    using k by (simp add: list_update_append drop_step [OF k])
  moreover have "(map (\<lambda>c. h c (xs ! c)) [0..<k] @ drop k xs) ! k = xs ! k"
    using k by (simp add: nth_append)
  ultimately show ?case
    using Suc.IH k by simp
qed

lemma fold_pointwise_full:
  "length xs = n \<Longrightarrow> fold (\<lambda>c ys. ys[c := h c (ys ! c)]) [0..<n] xs = map (\<lambda>c. h c (xs ! c)) [0..<n]"
  using fold_pointwise [of n xs h] by simp

lemma fold_row_update:
  "r < length g \<Longrightarrow>
   fold (\<lambda>c g'. g'[r := (g' ! r)[c := h c (g' ! r ! c)]]) cs g
   = g[r := fold (\<lambda>c row. row[c := h c (row ! c)]) cs (g ! r)]"
  by (induction cs arbitrary: g) simp_all

lemma agrees_length: "agrees fs p \<Longrightarrow> length p = length fs"
  by (simp add: agrees_def list_all2_lengthD)

lemma agrees_nth:
  "agrees fs p \<Longrightarrow> c < length fs \<Longrightarrow>
   (case fs ! c of Some w \<Rightarrow> p ! c = w | None \<Rightarrow> p ! c \<in> {0, 1, 2, 3})"
  by (simp add: agrees_def list_all2_conv_all_nth)

definition incs :: "opened_map \<Rightarrow> nat \<Rightarrow> val list \<Rightarrow> int list" where
  "incs opened r p = map (\<lambda>c. p ! c - cell_val (map_of opened (int r, int c))) [0..<N]"

definition incb :: "opened_map \<Rightarrow> nat \<Rightarrow> val list \<Rightarrow> int list" where
  "incb opened r p =
     map (\<lambda>c. (if p ! c = 0 then 1 else 0) - (if map_of opened (int r, int c) = Some 0 then 1 else 0))
       [0..<N]"

lemma check_row_pat_fold:
  "(\<forall>c\<in>set cs. c < length p \<and> (gr ! c = None \<or> gr ! c = Some (p ! c))) \<Longrightarrow>
   check_row_pat p gr cs xs ys =
     Inr (True, fold (\<lambda>c zs. zs[c := p ! c - cell_val (gr ! c)]) cs xs,
          fold (\<lambda>c zs. zs[c := (if p ! c = 0 then 1 else 0) - (if gr ! c = Some 0 then 1 else 0)])
            cs ys)"
proof (induction cs arbitrary: xs ys)
  case Nil
  then show ?case by simp
next
  case (Cons c cs)
  have cv: "(case gr ! c of None \<Rightarrow> 0 | Some q \<Rightarrow> if q = 0 then 0 else q) = cell_val (gr ! c)"
    by (simp add: cell_val_def split: option.split)
  from Cons.prems have "c < length p" and "gr ! c = None \<or> gr ! c = Some (p ! c)" by simp_all
  moreover from Cons.prems
  have "\<forall>c\<in>set cs. c < length p \<and> (gr ! c = None \<or> gr ! c = Some (p ! c))" by simp
  ultimately show ?case
    by (auto simp: Let_def Cons.IH cv)
qed

lemma check_row_pat_agrees:
  assumes "agrees (row_fixed_of opened r) p"
  shows "check_row_pat p (row_fixed_of opened r) [0..<N] (replicate N 0) (replicate N 0)
         = Inr (True, incs opened r p, incb opened r p)"
proof -
  have len: "length p = N" using agrees_length [OF assms] by simp
  have ok: "\<forall>c\<in>set [0..<N]. c < length p
             \<and> (row_fixed_of opened r ! c = None \<or> row_fixed_of opened r ! c = Some (p ! c))"
  proof
    fix c assume "c \<in> set [0..<N]"
    then have c: "c < N" by simp
    from agrees_nth [OF assms, of c] c show "c < length p
             \<and> (row_fixed_of opened r ! c = None \<or> row_fixed_of opened r ! c = Some (p ! c))"
      by (auto simp: len split: option.splits)
  qed
  have f1: "fold (\<lambda>c zs. zs[c := p ! c - cell_val (row_fixed_of opened r ! c)]) [0..<N] (replicate N 0)
            = incs opened r p"
    using fold_pointwise_full [of "replicate N (0::int)" N
        "\<lambda>c _. p ! c - cell_val (row_fixed_of opened r ! c)"]
    by (simp add: incs_def cong: map_cong)
  have f2: "fold (\<lambda>c zs. zs[c := (if p ! c = 0 then 1 else 0)
                              - (if row_fixed_of opened r ! c = Some 0 then 1 else 0)])
              [0..<N] (replicate N 0) = incb opened r p"
    using fold_pointwise_full [of "replicate N (0::int)" N
        "\<lambda>c _. (if p ! c = 0 then 1 else 0) - (if row_fixed_of opened r ! c = Some 0 then 1 else 0)"]
    by (simp add: incb_def cong: map_cong)
  show ?thesis
    by (simp only: check_row_pat_fold [OF ok] f1 f2)
qed

lemma grid_of_split:
  assumes "length acc = r" and "r < N"
  shows "grid_of opened acc
         = map (map Some) acc @ row_fixed_of opened r # map (row_fixed_of opened) [Suc r..<N]"
    and "grid_of opened (acc @ [p])
         = map (map Some) acc @ map Some p # map (row_fixed_of opened) [Suc r..<N]"
  using assms by (simp_all add: grid_of_def upt_conv_Cons)

lemma grid_of_nth: "length acc = r \<Longrightarrow> r < N \<Longrightarrow> grid_of opened acc ! r = row_fixed_of opened r"
  by (simp add: grid_of_split(1) nth_append)

lemma length_grid_of [simp]: "length acc \<le> N \<Longrightarrow> length (grid_of opened acc) = N"
  by (simp add: grid_of_def)

lemma grid_of_update:
  "length acc = r \<Longrightarrow> r < N \<Longrightarrow> (grid_of opened acc)[r := map Some p] = grid_of opened (acc @ [p])"
  by (simp add: grid_of_split list_update_append)

lemma grid_of_restore:
  "length acc = r \<Longrightarrow> r < N \<Longrightarrow>
   (grid_of opened (acc @ [p]))[r := row_fixed_of opened r] = grid_of opened acc"
  by (simp add: grid_of_split list_update_append)

lemma colsum_place:
  assumes "length acc = r" and "r < N" and "c < N" and "length p = N"
  shows "colsum (grid_of opened (acc @ [p])) c
         = colsum (grid_of opened acc) c + (p ! c - cell_val (map_of opened (int r, int c)))"
  using assms by (simp add: grid_of_split [OF assms(1,2)] cell_val_def)

lemma colbz_place:
  assumes "length acc = r" and "r < N" and "c < N" and "length p = N"
  shows "colbz (grid_of opened (acc @ [p])) c
         = colbz (grid_of opened acc) c
           + ((if p ! c = 0 then 1 else 0) - (if map_of opened (int r, int c) = Some 0 then 1 else 0))"
  using assms by (simp add: grid_of_split [OF assms(1,2)])

lemma state_fold_place:
  "fold (\<lambda>c st. st\<lparr>grid := (grid st)[r := (grid st ! r)[c := Some (p ! c)]],
                    col_sum := (col_sum st)[c := col_sum st ! c + xs ! c],
                    col_bz := (col_bz st)[c := col_bz st ! c + ys ! c]\<rparr>) cs st
   = st\<lparr>grid := fold (\<lambda>c g. g[r := (g ! r)[c := Some (p ! c)]]) cs (grid st),
        col_sum := fold (\<lambda>c zs. zs[c := zs ! c + xs ! c]) cs (col_sum st),
        col_bz := fold (\<lambda>c zs. zs[c := zs ! c + ys ! c]) cs (col_bz st)\<rparr>"
  by (induction cs arbitrary: st) simp_all

lemma state_fold_rollback:
  "fold (\<lambda>c st. st\<lparr>col_sum := (col_sum st)[c := col_sum st ! c - xs ! c],
                    col_bz := (col_bz st)[c := col_bz st ! c - ys ! c],
                    grid := (grid st)[r := (grid st ! r)[c := map_of (opened_dict st) (int r, int c)]]\<rparr>)
      cs st
   = st\<lparr>col_sum := fold (\<lambda>c zs. zs[c := zs ! c - xs ! c]) cs (col_sum st),
        col_bz := fold (\<lambda>c zs. zs[c := zs ! c - ys ! c]) cs (col_bz st),
        grid := fold (\<lambda>c g. g[r := (g ! r)[c := map_of (opened_dict st) (int r, int c)]]) cs (grid st)\<rparr>"
  by (induction cs arbitrary: st) simp_all

lemma fold_write_row:
  assumes "r < length g" and "length (g ! r) = n"
  shows "fold (\<lambda>c g'. g'[r := (g' ! r)[c := f c]]) [0..<n] g = g[r := map f [0..<n]]"
proof -
  have "fold (\<lambda>c g'. g'[r := (g' ! r)[c := f c]]) [0..<n] g
        = g[r := fold (\<lambda>c row. row[c := f c]) [0..<n] (g ! r)]"
    using fold_row_update [OF assms(1), of "\<lambda>c _. f c" "[0..<n]"] by simp
  also have "fold (\<lambda>c row. row[c := f c]) [0..<n] (g ! r) = map f [0..<n]"
    using fold_pointwise_full [OF assms(2), of "\<lambda>c _. f c"] by simp
  finally show ?thesis .
qed

lemma map_Some_nth: "length p = n \<Longrightarrow> map (\<lambda>c. Some (p ! c)) [0..<n] = map Some p"
  by (rule nth_equalityI) simp_all

lemma place_state_of:
  assumes "length acc = r" and "r < N" and "length p = N"
  shows "place_row_pat r p (incs opened r p) (incb opened r p) (state_of opened acc sols)
         = state_of opened (acc @ [p]) sols"
proof -
  let ?g = "grid_of opened acc"
  have lg: "r < length ?g" using assms by simp
  have lr: "length (?g ! r) = N" using assms by (simp add: grid_of_nth)
  have g: "fold (\<lambda>c g'. g'[r := (g' ! r)[c := Some (p ! c)]]) [0..<N] ?g
           = grid_of opened (acc @ [p])"
    by (simp add: fold_write_row [OF lg lr] map_Some_nth [OF assms(3)] grid_of_update [OF assms(1,2)])
  have s: "fold (\<lambda>c zs. zs[c := zs ! c + incs opened r p ! c]) [0..<N] (map (colsum ?g) [0..<N])
           = map (colsum (grid_of opened (acc @ [p]))) [0..<N]"
    using fold_pointwise_full [of "map (colsum ?g) [0..<N]" N "\<lambda>c v. v + incs opened r p ! c"]
    by (simp add: colsum_place [OF assms(1,2) _ assms(3)] incs_def cong: map_cong)
  have b: "fold (\<lambda>c zs. zs[c := zs ! c + incb opened r p ! c]) [0..<N] (map (colbz ?g) [0..<N])
           = map (colbz (grid_of opened (acc @ [p]))) [0..<N]"
    using fold_pointwise_full [of "map (colbz ?g) [0..<N]" N "\<lambda>c v. v + incb opened r p ! c"]
    by (simp add: colbz_place [OF assms(1,2) _ assms(3)] incb_def cong: map_cong)
  show ?thesis
    unfolding place_row_pat_def state_fold_place
    by (simp add: state_of_def g s b)
qed

lemma rollback_state_of:
  assumes "length acc = r" and "r < N" and "length p = N"
  shows "rollback r (incs opened r p) (incb opened r p) (state_of opened (acc @ [p]) sols)
         = state_of opened acc sols"
proof -
  let ?g = "grid_of opened (acc @ [p])"
  have lg: "r < length ?g" using assms by simp
  have lr: "length (?g ! r) = N"
    using assms by (simp add: grid_of_split(2) [OF assms(1,2)] nth_append)
  have g: "fold (\<lambda>c g'. g'[r := (g' ! r)[c := map_of opened (int r, int c)]]) [0..<N] ?g
           = grid_of opened acc"
    using grid_of_restore [OF assms(1,2), of opened p]
    by (simp add: fold_write_row [OF lg lr] row_fixed_of_def)
  have s: "fold (\<lambda>c zs. zs[c := zs ! c - incs opened r p ! c]) [0..<N] (map (colsum ?g) [0..<N])
           = map (colsum (grid_of opened acc)) [0..<N]"
    using fold_pointwise_full [of "map (colsum ?g) [0..<N]" N "\<lambda>c v. v - incs opened r p ! c"]
    by (simp add: colsum_place [OF assms(1,2) _ assms(3)] incs_def cong: map_cong)
  have b: "fold (\<lambda>c zs. zs[c := zs ! c - incb opened r p ! c]) [0..<N] (map (colbz ?g) [0..<N])
           = map (colbz (grid_of opened acc)) [0..<N]"
    using fold_pointwise_full [of "map (colbz ?g) [0..<N]" N "\<lambda>c v. v - incb opened r p ! c"]
    by (simp add: colbz_place [OF assms(1,2) _ assms(3)] incb_def cong: map_cong)
  show ?thesis
    unfolding rollback_def state_fold_rollback
    by (simp add: state_of_def g s b)
qed

definition column :: "val list list \<Rightarrow> nat \<Rightarrow> val list" where
  "column g c = map (\<lambda>row. row ! c) g"

definition bomb_count :: "val list \<Rightarrow> int" where
  "bomb_count xs = int (length (filter (\<lambda>v. v = 0) xs))"

definition cols_ok :: "int list \<Rightarrow> int list \<Rightarrow> val list list \<Rightarrow> bool" where
  "cols_ok col_sums col_bombs g =
     (\<forall>c<N. sum_list (column g c) = col_sums ! c \<and> bomb_count (column g c) = col_bombs ! c)"

definition freec :: "val option list list \<Rightarrow> nat \<Rightarrow> int" where
  "freec fixs c = int (length (filter (\<lambda>row. row ! c = None) fixs))"

lemma column_simps [simp]:
  "column [] c = []" "column (row # g) c = row ! c # column g c"
  "column (g @ h) c = column g c @ column h c"
  by (simp_all add: column_def)

lemma bomb_count_simps [simp]:
  "bomb_count [] = 0" "bomb_count (v # xs) = (if v = 0 then 1 else 0) + bomb_count xs"
  "bomb_count (xs @ ys) = bomb_count xs + bomb_count ys"
  by (simp_all add: bomb_count_def)

lemma freec_simps [simp]:
  "freec [] c = 0" "freec (row # fixs) c = (if row ! c = None then 1 else 0) + freec fixs c"
  by (simp_all add: freec_def)

lemma colsum_full:
  "\<forall>row\<in>set acc. c < length row \<Longrightarrow> colsum (map (map Some) acc) c = sum_list (column acc c)"
  by (induction acc) (simp_all add: cell_val_def)

lemma colbz_full:
  "\<forall>row\<in>set acc. c < length row \<Longrightarrow> colbz (map (map Some) acc) c = bomb_count (column acc c)"
  by (induction acc) simp_all

lemma int_row_Some: "int_row (map Some p) = Inr p"
  by (induction p) simp_all

lemma int_grid_Some: "int_grid (map (map Some) acc) = Inr acc"
  by (induction acc) (simp_all add: int_row_Some)

lemma cols_match_eq:
  "\<forall>c\<in>set cols. c < length col_sums \<and> c < length col_bombs \<Longrightarrow>
   cols_match col_sums col_bombs st cols
   = Inr (\<forall>c\<in>set cols. col_sum st ! c = col_sums ! c \<and> col_bz st ! c = col_bombs ! c)"
  by (induction cols) auto

definition feas :: "int list \<Rightarrow> int list \<Rightarrow> nat \<Rightarrow> search_state \<Rightarrow> nat \<Rightarrow> bool" where
  "feas col_sums col_bombs r st c =
     (case col_bounds_so_far (col_sums ! c) (col_bombs ! c) (col_sum st ! c) (col_bz st ! c)
             (int (length (filter (\<lambda>rr. grid st ! rr ! c = None) [r + 1..<N]))) of
        None \<Rightarrow> False
      | Some (lo, hi) \<Rightarrow> lo \<le> col_sums ! c \<and> col_sums ! c \<le> hi)"

lemma prune_cols_eq:
  "\<forall>c\<in>set cols. c < length col_sums \<and> c < length col_bombs \<Longrightarrow>
   prune_cols col_sums col_bombs r st cols = Inr (\<forall>c\<in>set cols. feas col_sums col_bombs r st c)"
  by (induction cols) (auto simp: feas_def Let_def split: option.splits)

lemma column_bounds:
  assumes "list_all2 agrees fixs rest" and "\<forall>f\<in>set fixs. c < length f"
  shows "0 \<le> bomb_count (column rest c) - colbz fixs c
       \<and> bomb_count (column rest c) - colbz fixs c \<le> freec fixs c
       \<and> freec fixs c - (bomb_count (column rest c) - colbz fixs c)
           \<le> sum_list (column rest c) - colsum fixs c
       \<and> sum_list (column rest c) - colsum fixs c
           \<le> 3 * (freec fixs c - (bomb_count (column rest c) - colbz fixs c))"
  using assms
proof (induction rule: list_all2_induct)
  case Nil
  then show ?case by simp
next
  case (Cons f fixs q rest)
  from Cons.prems have c: "c < length f" and rest: "\<forall>f\<in>set fixs. c < length f" by simp_all
  note IH = Cons.IH [OF rest]
  from agrees_nth [OF Cons.hyps(1) c]
  have "(case f ! c of Some w \<Rightarrow> q ! c = w | None \<Rightarrow> q ! c \<in> {0, 1, 2, 3})" .
  then show ?case
    using IH by (cases "f ! c") (auto simp: cell_val_def)
qed

definition env_ok :: "opened_map \<Rightarrow> val list list list \<Rightarrow> bool" where
  "env_ok opened arp =
     (length arp = N \<and> (\<forall>i<N. \<forall>p\<in>set (arp ! i). agrees (row_fixed_of opened i) p))"

lemma state_of_sel [simp]:
  "grid (state_of opened acc sols) = grid_of opened acc"
  "solutions (state_of opened acc sols) = sols"
  "opened_dict (state_of opened acc sols) = opened"
  "c < N \<Longrightarrow> col_sum (state_of opened acc sols) ! c = colsum (grid_of opened acc) c"
  "c < N \<Longrightarrow> col_bz (state_of opened acc sols) ! c = colbz (grid_of opened acc) c"
  by (simp_all add: state_of_def)

lemma state_of_solutions [simp]:
  "state_of opened acc sols\<lparr>solutions := sols'\<rparr> = state_of opened acc sols'"
  by (simp add: state_of_def)

lemma rows_left_conv:
  assumes "length acc' = Suc r"
  shows "int (length (filter (\<lambda>rr. grid_of opened acc' ! rr ! c = None) [Suc r..<N]))
         = freec (map (row_fixed_of opened) [Suc r..<N]) c"
proof -
  have "grid_of opened acc' ! rr = row_fixed_of opened rr" if "rr \<in> set [Suc r..<N]" for rr
  proof -
    from that have rr: "Suc r \<le> rr" "rr < N" by simp_all
    then have "rr - Suc r < N - Suc r" by arith
    then have "map (row_fixed_of opened) [Suc r..<N] ! (rr - Suc r)
               = row_fixed_of opened (Suc r + (rr - Suc r))"
      by (rule nth_map_upt)
    with rr assms show ?thesis
      by (simp add: grid_of_def nth_append)
  qed
  then have "filter (\<lambda>rr. grid_of opened acc' ! rr ! c = None) [Suc r..<N]
             = filter (\<lambda>rr. row_fixed_of opened rr ! c = None) [Suc r..<N]"
    by (intro filter_cong) simp_all
  then show ?thesis
    by (simp add: freec_def filter_map comp_def)
qed

lemma prune_sound:
  assumes len: "length acc' = Suc r" and rN: "Suc r \<le> N"
    and rows: "\<forall>row\<in>set acc'. length row = N"
    and rest: "list_all2 agrees (map (row_fixed_of opened) [Suc r..<N]) rest"
    and ok: "cols_ok col_sums col_bombs (acc' @ rest)"
    and c: "c < N"
  shows "feas col_sums col_bombs r (state_of opened acc' sols) c"
proof -
  let ?fixs = "map (row_fixed_of opened) [Suc r..<N]"
  have g: "grid_of opened acc' = map (map Some) acc' @ ?fixs"
    using len by (simp add: grid_of_def)
  have rows': "\<forall>row\<in>set acc'. c < length row" using rows c by simp
  have cs: "colsum (grid_of opened acc') c = sum_list (column acc' c) + colsum ?fixs c"
    by (simp add: g colsum_full [OF rows'])
  have cb: "colbz (grid_of opened acc') c = bomb_count (column acc' c) + colbz ?fixs c"
    by (simp add: g colbz_full [OF rows'])
  have "\<forall>f\<in>set ?fixs. c < length f" using c by simp
  note bnd = column_bounds [OF rest this]
  from ok c have t: "sum_list (column acc' c) + sum_list (column rest c) = col_sums ! c"
    "bomb_count (column acc' c) + bomb_count (column rest c) = col_bombs ! c"
    by (simp_all add: cols_ok_def)
  show ?thesis
    using bnd t
    by (simp add: feas_def c rows_left_conv [OF len] cs cb col_bounds_so_far_def Let_def)
qed

lemma for_each_collect:
  assumes "\<And>x s. x \<in> set xs \<Longrightarrow> body x (mk s) = Inr (mk (s @ F x))"
  shows "for_each body xs (mk s) = Inr (mk (s @ concat (map F xs)))"
  using assms by (induction xs arbitrary: s) simp_all

definition completions :: "int list \<Rightarrow> int list \<Rightarrow> val list list list \<Rightarrow> val list list \<Rightarrow> val list list list" where
  "completions col_sums col_bombs rest_patterns acc =
     filter (cols_ok col_sums col_bombs) (map ((@) acc) (product_lists rest_patterns))"

lemma completions_Nil:
  "completions col_sums col_bombs [] acc = (if cols_ok col_sums col_bombs acc then [acc] else [])"
  by (simp add: completions_def)

lemma completions_Cons:
  "completions col_sums col_bombs (pats # rest) acc
   = concat (map (\<lambda>p. completions col_sums col_bombs rest (acc @ [p])) pats)"
proof -
  have "(@) (acc @ [p]) = (\<lambda>xs. acc @ p # xs)" for p
    by (rule ext) simp
  then show ?thesis
    by (simp add: completions_def map_concat filter_concat comp_def)
qed

lemma in_product_agrees:
  assumes env: "env_ok opened arp" and r: "r \<le> N"
    and mem: "rest \<in> set (product_lists (drop r arp))"
  shows "list_all2 agrees (map (row_fixed_of opened) [r..<N]) rest"
proof -
  from mem have l2: "list_all2 (\<lambda>x ys. x \<in> set ys) rest (drop r arp)"
    by (simp add: product_lists_set)
  from env have len: "length arp = N" by (simp add: env_ok_def)
  from l2 have lr: "length rest = N - r" using len by (simp add: list_all2_lengthD)
  show ?thesis
  proof (rule list_all2_all_nthI)
    show "length (map (row_fixed_of opened) [r..<N]) = length rest" by (simp add: lr)
  next
    fix n assume "n < length (map (row_fixed_of opened) [r..<N])"
    then have n: "n < N - r" by simp
    then have "rest ! n \<in> set (drop r arp ! n)"
      using l2 lr by (simp add: list_all2_conv_all_nth)
    then have "rest ! n \<in> set (arp ! (r + n))" using n len by simp
    moreover have "r + n < N" using n by arith
    ultimately have "agrees (row_fixed_of opened (r + n)) (rest ! n)"
      using env by (simp add: env_ok_def)
    then show "agrees (map (row_fixed_of opened) [r..<N] ! n) (rest ! n)"
      using n by (simp add: nth_map_upt)
  qed
qed

lemma pruned_no_completions:
  assumes env: "env_ok opened arp"
    and len: "length acc' = Suc r" and rN: "Suc r \<le> N"
    and rows: "\<forall>row\<in>set acc'. length row = N"
    and nf: "\<not> (\<forall>c\<in>set [0..<N]. feas col_sums col_bombs r (state_of opened acc' sols) c)"
  shows "completions col_sums col_bombs (drop (Suc r) arp) acc' = []"
proof (rule ccontr)
  assume "completions col_sums col_bombs (drop (Suc r) arp) acc' \<noteq> []"
  then obtain g where "g \<in> set (completions col_sums col_bombs (drop (Suc r) arp) acc')"
    by (meson last_in_set)
  then obtain rest where mem: "rest \<in> set (product_lists (drop (Suc r) arp))"
    and ok: "cols_ok col_sums col_bombs (acc' @ rest)"
    by (auto simp: completions_def)
  note ag = in_product_agrees [OF env rN mem]
  have "feas col_sums col_bombs r (state_of opened acc' sols) c" if "c < N" for c
    using prune_sound [OF len rN rows ag ok that] .
  with nf show False by simp
qed

lemma dfs_row_base:
  assumes cs: "N \<le> length col_sums" and cb: "N \<le> length col_bombs"
    and len: "length acc = N" and rows: "\<forall>row\<in>set acc. length row = N"
  shows "dfs_row arp col_sums col_bombs N (state_of opened acc sols)
         = Inr (state_of opened acc (sols @ completions col_sums col_bombs [] acc))"
proof -
  have g: "grid_of opened acc = map (map Some) acc"
    using len by (simp add: grid_of_def)
  have idx: "\<forall>c\<in>set [0..<N]. c < length col_sums \<and> c < length col_bombs"
    using cs cb by simp
  have "(\<forall>c\<in>set [0..<N]. col_sum (state_of opened acc sols) ! c = col_sums ! c
                          \<and> col_bz (state_of opened acc sols) ! c = col_bombs ! c)
        = cols_ok col_sums col_bombs acc"
    using rows by (auto simp: cols_ok_def g colsum_full colbz_full)
  then have m: "cols_match col_sums col_bombs (state_of opened acc sols) [0..<N]
                = Inr (cols_ok col_sums col_bombs acc)"
    by (simp only: cols_match_eq [OF idx])
  show ?thesis
    by (subst dfs_row.simps) (simp add: m g int_grid_Some completions_Nil)
qed

lemma dfs_row_body:
  assumes env: "env_ok opened arp"
    and cs: "N \<le> length col_sums" and cb: "N \<le> length col_bombs"
    and len: "length acc = r" and r: "r < N" and rows: "\<forall>row\<in>set acc. length row = N"
    and p: "p \<in> set (arp ! r)"
    and IH: "\<And>sols'. dfs_row arp col_sums col_bombs (Suc r) (state_of opened (acc @ [p]) sols')
              = Inr (state_of opened (acc @ [p])
                      (sols' @ completions col_sums col_bombs (drop (Suc r) arp) (acc @ [p])))"
  shows "(case check_row_pat p (grid (state_of opened acc sols) ! r) [0..<N] (replicate N 0)
               (replicate N 0) of
            Inl e \<Rightarrow> Inl e
          | Inr (False, incr_sum, incr_bz) \<Rightarrow> Inr (state_of opened acc sols)
          | Inr (True, incr_sum, incr_bz) \<Rightarrow>
              (let st1 = place_row_pat r p incr_sum incr_bz (state_of opened acc sols) in
               case prune_cols col_sums col_bombs r st1 [0..<N] of
                 Inl e \<Rightarrow> Inl e
               | Inr ok \<Rightarrow>
                   (case (if ok then dfs_row arp col_sums col_bombs (r + 1) st1 else Inr st1) of
                      Inl e \<Rightarrow> Inl e
                    | Inr st2 \<Rightarrow> Inr (rollback r incr_sum incr_bz st2))))
         = Inr (state_of opened acc
                 (sols @ completions col_sums col_bombs (drop (Suc r) arp) (acc @ [p])))"
proof -
  from env r p have ag: "agrees (row_fixed_of opened r) p" by (simp add: env_ok_def)
  then have lp: "length p = N" using agrees_length by fastforce
  have chk: "check_row_pat p (grid (state_of opened acc sols) ! r) [0..<N] (replicate N 0)
               (replicate N 0) = Inr (True, incs opened r p, incb opened r p)"
    by (simp add: grid_of_nth [OF len r] check_row_pat_agrees [OF ag])
  let ?st1 = "state_of opened (acc @ [p]) sols"
  have plc: "place_row_pat r p (incs opened r p) (incb opened r p) (state_of opened acc sols) = ?st1"
    by (rule place_state_of [OF len r lp])
  have idx: "\<forall>c\<in>set [0..<N]. c < length col_sums \<and> c < length col_bombs"
    using cs cb by simp
  note prn = prune_cols_eq [OF idx, of r ?st1]
  have len': "length (acc @ [p]) = Suc r" using len by simp
  have rows': "\<forall>row\<in>set (acc @ [p]). length row = N" using rows lp by simp
  have rN: "Suc r \<le> N" using r by simp
  let ?ok = "\<forall>c\<in>set [0..<N]. feas col_sums col_bombs r ?st1 c"
  have rest: "(if ?ok then dfs_row arp col_sums col_bombs (r + 1) ?st1 else Inr ?st1)
              = Inr (state_of opened (acc @ [p])
                      (sols @ completions col_sums col_bombs (drop (Suc r) arp) (acc @ [p])))"
  proof (cases ?ok)
    case True
    then show ?thesis by (simp add: IH)
  next
    case False
    have e: "completions col_sums col_bombs (drop (Suc r) arp) (acc @ [p]) = []"
      by (rule pruned_no_completions [OF env len' rN rows' False])
    show ?thesis by (simp only: False if_False e append_Nil2)
  qed
  show ?thesis
    by (simp only: chk plc prn rest Let_def sum.case prod.case bool.case if_True
          rollback_state_of [OF len r lp])
qed

lemma dfs_row_state_of:
  assumes env: "env_ok opened arp"
    and cs: "N \<le> length col_sums" and cb: "N \<le> length col_bombs"
  shows "length acc = r \<Longrightarrow> r \<le> N \<Longrightarrow> \<forall>row\<in>set acc. length row = N \<Longrightarrow>
         dfs_row arp col_sums col_bombs r (state_of opened acc sols)
         = Inr (state_of opened acc (sols @ completions col_sums col_bombs (drop r arp) acc))"
proof (induction "N - r" arbitrary: r acc sols)
  case 0
  then have r: "r = N" by simp
  from env have "drop N arp = []" by (simp add: env_ok_def)
  with dfs_row_base [OF cs cb _ "0.prems"(3), of arp opened sols] "0.prems"(1) r
  show ?case by simp
next
  case (Suc k)
  then have r: "r < N" by simp
  from env have larp: "length arp = N" by (simp add: env_ok_def)
  have dr: "drop r arp = arp ! r # drop (Suc r) arp"
    using r larp by (simp add: drop_step)
  have body: "(case check_row_pat p (grid (state_of opened acc s) ! r) [0..<N] (replicate N 0)
               (replicate N 0) of
            Inl e \<Rightarrow> Inl e
          | Inr (False, incr_sum, incr_bz) \<Rightarrow> Inr (state_of opened acc s)
          | Inr (True, incr_sum, incr_bz) \<Rightarrow>
              (let st1 = place_row_pat r p incr_sum incr_bz (state_of opened acc s) in
               case prune_cols col_sums col_bombs r st1 [0..<N] of
                 Inl e \<Rightarrow> Inl e
               | Inr ok \<Rightarrow>
                   (case (if ok then dfs_row arp col_sums col_bombs (r + 1) st1 else Inr st1) of
                      Inl e \<Rightarrow> Inl e
                    | Inr st2 \<Rightarrow> Inr (rollback r incr_sum incr_bz st2))))
         = Inr (state_of opened acc
                 (s @ completions col_sums col_bombs (drop (Suc r) arp) (acc @ [p])))"
    if p: "p \<in> set (arp ! r)" for p s
  proof (rule dfs_row_body [OF env cs cb Suc.prems(1) r Suc.prems(3) p])
    fix sols'
    from env r p have "agrees (row_fixed_of opened r) p" by (simp add: env_ok_def)
    then have lp: "length p = N" using agrees_length by fastforce
    show "dfs_row arp col_sums col_bombs (Suc r) (state_of opened (acc @ [p]) sols')
          = Inr (state_of opened (acc @ [p])
                  (sols' @ completions col_sums col_bombs (drop (Suc r) arp) (acc @ [p])))"
      using Suc.hyps(2) Suc.prems r lp
      by (intro Suc.hyps(1)) simp_all
  qed
  have "dfs_row arp col_sums col_bombs r (state_of opened acc sols)
        = for_each
          (\<lambda>row_pat st.
             case check_row_pat row_pat (grid st ! r) [0..<N] (replicate N 0) (replicate N 0) of
               Inl e \<Rightarrow> Inl e
             | Inr (False, incr_sum, incr_bz) \<Rightarrow> Inr st
             | Inr (True, incr_sum, incr_bz) \<Rightarrow>
                 (let st1 = place_row_pat r row_pat incr_sum incr_bz st in
                  case prune_cols col_sums col_bombs r st1 [0..<N] of
                    Inl e \<Rightarrow> Inl e
                  | Inr ok \<Rightarrow>
                      (case (if ok then dfs_row arp col_sums col_bombs (r + 1) st1
                             else Inr st1) of
                         Inl e \<Rightarrow> Inl e
                       | Inr st2 \<Rightarrow> Inr (rollback r incr_sum incr_bz st2))))
          (arp ! r) (state_of opened acc sols)"
    using r larp by (subst dfs_row.simps) simp
  also have "\<dots> = Inr (state_of opened acc
      (sols @ concat (map (\<lambda>p. completions col_sums col_bombs (drop (Suc r) arp) (acc @ [p]))
                       (arp ! r))))"
    by (rule for_each_collect [where mk = "state_of opened acc"]) (rule body)
  finally show ?case
    by (simp add: dr completions_Cons)
qed

definition row_R :: "int list \<Rightarrow> opened_map \<Rightarrow> nat \<Rightarrow> int" where
  "row_R row_sums opened r =
     row_sums ! r - sum_list (map snd (filter (\<lambda>((rr, cc), v). rr = int r) opened))"

definition row_Z :: "int list \<Rightarrow> opened_map \<Rightarrow> nat \<Rightarrow> int" where
  "row_Z row_bombs opened r =
     row_bombs ! r
     - sum_list (map (\<lambda>_. 1) (filter (\<lambda>((rr, cc), v). rr = int r \<and> v = 0) opened))"

definition row_pats :: "int list \<Rightarrow> int list \<Rightarrow> opened_map \<Rightarrow> nat \<Rightarrow> val list list" where
  "row_pats row_sums row_bombs opened r =
     row_ref (row_fixed_of opened r) (row_R row_sums opened r) (row_Z row_bombs opened r)"

lemma enumerate_row_patterns_eq:
  assumes "r < length row_sums" and "r < length row_bombs"
  shows "enumerate_row_patterns r row_sums row_bombs col_sums col_bombs opened
         = Inr (row_pats row_sums row_bombs opened r)"
proof -
  have "dfs (row_fixed_of opened r) 0 s b [] [] = Inr (row_ref (row_fixed_of opened r) s b)" for s b
  proof -
    have "map ((@) []) xs = xs" for xs :: "val list list"
      by (induction xs) simp_all
    then show ?thesis
      using dfs_row_ref [of "row_fixed_of opened r" 0 s b "[]" "[]"] by simp
  qed
  then show ?thesis
    using assms
    by (simp add: enumerate_row_patterns_def row_remaining_def Let_def row_pats_def row_R_def
        row_Z_def row_fixed_of_def)
qed

lemma collect_row_patterns_eq:
  "\<forall>r\<in>set rows. r < length row_sums \<and> r < length row_bombs \<Longrightarrow>
   collect_row_patterns row_sums row_bombs col_sums col_bombs opened rows arp0
   = Inr (if \<exists>r\<in>set rows. row_pats row_sums row_bombs opened r = [] then None
          else Some (arp0 @ map (row_pats row_sums row_bombs opened) rows))"
  by (induction rows arbitrary: arp0) (simp_all add: enumerate_row_patterns_eq)

lemma product_lists_empty: "[] \<in> set xss \<Longrightarrow> product_lists xss = []"
  by (induction xss) auto

lemma env_ok_row_pats: "env_ok opened (map (row_pats row_sums row_bombs opened) [0..<N])"
  by (simp add: env_ok_def row_pats_def row_ref_set)

theorem enumerate_all_boards_eq:
  assumes "N \<le> length row_sums" and "N \<le> length row_bombs"
    and cs: "N \<le> length col_sums" and cb: "N \<le> length col_bombs"
  shows "enumerate_all_boards row_sums row_bombs col_sums col_bombs opened
         = Inr (completions col_sums col_bombs (map (row_pats row_sums row_bombs opened) [0..<N]) [])"
proof -
  let ?arp = "map (row_pats row_sums row_bombs opened) [0..<N]"
  have idx: "\<forall>r\<in>set [0..<N]. r < length row_sums \<and> r < length row_bombs"
    using assms(1,2) by simp
  note col = collect_row_patterns_eq [OF idx, of col_sums col_bombs opened "[]"]
  show ?thesis
  proof (cases "\<exists>r\<in>set [0..<N]. row_pats row_sums row_bombs opened r = []")
    case True
    then obtain r where r: "r < N" "row_pats row_sums row_bombs opened r = []" by auto
    have "row_pats row_sums row_bombs opened r \<in> set ?arp" using r(1) by simp
    then have "[] \<in> set ?arp" by (simp only: r(2))
    then have "completions col_sums col_bombs ?arp [] = []"
      by (simp add: completions_def product_lists_empty)
    with True col show ?thesis
      by (simp add: enumerate_all_boards_def search_all_boards_def)
  next
    case False
    have "dfs_row ?arp col_sums col_bombs 0 (state_of opened [] [])
          = Inr (state_of opened [] ([] @ completions col_sums col_bombs (drop 0 ?arp) []))"
      by (rule dfs_row_state_of [OF env_ok_row_pats cs cb]) simp_all
    with False col show ?thesis
      by (simp add: enumerate_all_boards_def search_all_boards_def initial_state_conv)
  qed
qed

definition keys_ok :: "opened_map \<Rightarrow> bool" where
  "keys_ok opened =
     (distinct (map fst opened)
      \<and> (\<forall>((r, c), v)\<in>set opened. 0 \<le> r \<and> r < int N \<and> 0 \<le> c \<and> c < int N))"

lemma keys_ok_Cons:
  "keys_ok (((rr, cc), v) # rest) =
     (map_of rest (rr, cc) = None \<and> 0 \<le> rr \<and> rr < int N \<and> 0 \<le> cc \<and> cc < int N \<and> keys_ok rest)"
  by (auto simp: keys_ok_def map_of_eq_None_iff)

lemma sum_list_fun_upd:
  fixes f :: "nat \<Rightarrow> int"
  shows "c0 < n \<Longrightarrow> sum_list (map (f(c0 := v)) [0..<n]) = sum_list (map f [0..<n]) - f c0 + v"
proof (induction n)
  case 0
  then show ?case by simp
next
  case (Suc n)
  show ?case
  proof (cases "c0 = n")
    case True
    have eq: "map (\<lambda>a. if a = n then v else f a) [0..<n] = map f [0..<n]"
      by (intro map_cong) simp_all
    show ?thesis using True by (simp add: fun_upd_def eq)
  next
    case False
    with Suc.prems have "c0 < n" by simp
    from Suc.IH [OF this] False show ?thesis by simp
  qed
qed

lemma row_entries_sum:
  fixes h :: "val option \<Rightarrow> int"
  assumes h0: "h None = 0"
  shows "keys_ok opened \<Longrightarrow>
         sum_list (map (\<lambda>(k, v). h (Some v)) (filter (\<lambda>((rr, cc), v). rr = int r) opened))
         = sum_list (map (\<lambda>c. h (map_of opened (int r, int c))) [0..<N])"
proof (induction opened)
  case Nil
  then show ?case by (simp add: h0)
next
  case (Cons x rest)
  obtain rr cc v where x: "x = ((rr, cc), v)" by (cases x) auto
  from Cons.prems have fresh: "map_of rest (rr, cc) = None"
    and rng: "0 \<le> rr" "rr < int N" "0 \<le> cc" "cc < int N" and ok: "keys_ok rest"
    by (simp_all add: x keys_ok_Cons)
  note IH = Cons.IH [OF ok]
  show ?case
  proof (cases "rr = int r")
    case False
    then have "map_of (x # rest) (int r, int c) = map_of rest (int r, int c)" for c
      by (simp add: x)
    then show ?thesis using False IH by (simp add: x)
  next
    case True
    define c0 where "c0 = nat cc"
    have cc: "cc = int c0" and c0: "c0 < N" using rng by (simp_all add: c0_def)
    have "(\<lambda>c. h (map_of (x # rest) (int r, int c)))
          = (\<lambda>c. h (map_of rest (int r, int c)))(c0 := h (Some v))"
      by (rule ext) (simp add: x True cc)
    then have "sum_list (map (\<lambda>c. h (map_of (x # rest) (int r, int c))) [0..<N])
               = sum_list (map (\<lambda>c. h (map_of rest (int r, int c))) [0..<N])
                 - h (map_of rest (int r, int c0)) + h (Some v)"
      by (simp only: sum_list_fun_upd [OF c0])
    also have "h (map_of rest (int r, int c0)) = 0"
      using fresh by (simp add: True cc h0)
    finally show ?thesis using True IH by (simp add: x)
  qed
qed

lemma row_S_conv:
  assumes "keys_ok opened"
  shows "sum_list (map snd (filter (\<lambda>((rr, cc), v). rr = int r) opened))
         = sum_list (map cell_val (row_fixed_of opened r))"
proof -
  let ?F = "filter (\<lambda>((rr, cc), v). rr = int r) opened"
  have "map snd ?F = map (\<lambda>(k, v). cell_val (Some v)) ?F"
    by (intro map_cong) (auto simp: cell_val_def)
  then have "sum_list (map snd ?F) = sum_list (map (\<lambda>(k, v). cell_val (Some v)) ?F)"
    by (simp only:)
  also have "\<dots> = sum_list (map (\<lambda>c. cell_val (map_of opened (int r, int c))) [0..<N])"
    by (rule row_entries_sum [OF _ assms]) (simp add: cell_val_def)
  also have "\<dots> = sum_list (map cell_val (row_fixed_of opened r))"
    by (simp add: row_fixed_of_def comp_def)
  finally show ?thesis .
qed

lemma count_filter_conj:
  "sum_list (map (\<lambda>_. 1::int) (filter (\<lambda>((rr, cc), v). rr = int r \<and> v = 0) xs))
   = sum_list (map (\<lambda>(k, v). if Some v = Some (0::int) then 1 else 0)
                (filter (\<lambda>((rr, cc), v). rr = int r) xs))"
  by (induction xs) (auto split: if_splits)

lemma row_Z_conv:
  assumes "keys_ok opened"
  shows "sum_list (map (\<lambda>_. 1::int) (filter (\<lambda>((rr, cc), v). rr = int r \<and> v = 0) opened))
         = sum_list (map (\<lambda>f. if f = Some 0 then 1 else 0) (row_fixed_of opened r))"
proof -
  have "sum_list (map (\<lambda>(k, v). if Some v = Some (0::int) then 1 else (0::int))
                (filter (\<lambda>((rr, cc), v). rr = int r) opened))
        = sum_list (map (\<lambda>c. if map_of opened (int r, int c) = Some 0 then 1 else 0) [0..<N])"
    by (rule row_entries_sum [where h = "\<lambda>f. if f = Some 0 then 1 else 0", OF _ assms]) simp
  also have "\<dots> = sum_list (map (\<lambda>f. if f = Some 0 then 1 else 0) (row_fixed_of opened r))"
    by (simp add: row_fixed_of_def comp_def)
  finally show ?thesis
    by (simp only: count_filter_conj)
qed

definition nonbomb_sum :: "val list \<Rightarrow> int" where
  "nonbomb_sum xs = sum_list (filter (\<lambda>v. v \<noteq> 0) xs)"

lemma nonbomb_sum_conv: "nonbomb_sum xs = sum_list xs"
  by (induction xs) (simp_all add: nonbomb_sum_def)

lemma agrees_counts:
  "agrees fs p \<Longrightarrow>
   bomb_count p = free_bombs fs p + sum_list (map (\<lambda>f. if f = Some 0 then 1 else 0) fs)
   \<and> sum_list p = free_sum fs p + sum_list (map cell_val fs)"
proof (induction fs arbitrary: p)
  case Nil
  then show ?case by simp
next
  case (Cons f fs)
  from Cons.prems obtain v q where p: "p = v # q"
    and v: "case f of Some w \<Rightarrow> v = w | None \<Rightarrow> v \<in> {0, 1, 2, 3}" and q: "agrees fs q"
    by (auto simp: agrees_Cons)
  from Cons.IH [OF q] v show ?case
    by (cases f) (auto simp: p cell_val_def)
qed

lemma agrees_values:
  assumes "agrees fs p" and "\<forall>f\<in>set fs. \<forall>w. f = Some w \<longrightarrow> w \<in> {0, 1, 2, 3}"
  shows "set p \<subseteq> {0, 1, 2, 3}"
  using assms
proof (induction fs arbitrary: p)
  case Nil
  then show ?case by simp
next
  case (Cons f fs)
  from Cons.prems(1) obtain v q where p: "p = v # q"
    and v: "case f of Some w \<Rightarrow> v = w | None \<Rightarrow> v \<in> {0, 1, 2, 3}" and q: "agrees fs q"
    by (auto simp: agrees_Cons)
  from Cons.prems(2) have "\<forall>f\<in>set fs. \<forall>w. f = Some w \<longrightarrow> w \<in> {0, 1, 2, 3}" by simp
  from Cons.IH [OF q this] have "set q \<subseteq> {0, 1, 2, 3}" .
  moreover have "v \<in> {0, 1, 2, 3}"
    using v Cons.prems(2) by (cases f) auto
  ultimately show ?case by (simp add: p)
qed

lemma agrees_iff_nth:
  "agrees fs p =
     (length p = length fs
      \<and> (\<forall>c<length fs. case fs ! c of Some w \<Rightarrow> p ! c = w | None \<Rightarrow> p ! c \<in> {0, 1, 2, 3}))"
  by (auto simp: agrees_def list_all2_conv_all_nth)

definition vals_ok :: "opened_map \<Rightarrow> bool" where
  "vals_ok opened = (\<forall>(k, v)\<in>set opened. v \<in> {0, 1, 2, 3})"

lemma row_fixed_vals:
  assumes "vals_ok opened"
  shows "\<forall>f\<in>set (row_fixed_of opened r). \<forall>w. f = Some w \<longrightarrow> w \<in> {0, 1, 2, 3}"
proof (intro ballI allI impI)
  fix f w assume "f \<in> set (row_fixed_of opened r)" and "f = Some w"
  then obtain c where "map_of opened (int r, int c) = Some w"
    by (auto simp: row_fixed_of_def)
  then have "((int r, int c), w) \<in> set opened" by (rule map_of_SomeD)
  with assms show "w \<in> {0, 1, 2, 3}" by (auto simp: vals_ok_def)
qed

lemma in_row_pats:
  assumes k: "keys_ok opened" and v: "vals_ok opened"
  shows "(p \<in> set (row_pats row_sums row_bombs opened r)) =
         (length p = N \<and> set p \<subseteq> {0, 1, 2, 3}
          \<and> bomb_count p = row_bombs ! r \<and> sum_list p = row_sums ! r
          \<and> (\<forall>c<N. \<forall>w. map_of opened (int r, int c) = Some w \<longrightarrow> p ! c = w))"
  (is "?L = ?R")
proof
  assume ?L
  then have ag: "agrees (row_fixed_of opened r) p"
    and fb: "free_bombs (row_fixed_of opened r) p = row_Z row_bombs opened r"
    and fs: "free_sum (row_fixed_of opened r) p = row_R row_sums opened r"
    by (simp_all add: row_pats_def row_ref_set)
  note cnt = agrees_counts [OF ag]
  have "bomb_count p = row_bombs ! r"
    using cnt fb by (simp add: row_Z_def row_Z_conv [OF k])
  moreover have "sum_list p = row_sums ! r"
    using cnt fs by (simp add: row_R_def row_S_conv [OF k])
  moreover have "set p \<subseteq> {0, 1, 2, 3}"
    by (rule agrees_values [OF ag row_fixed_vals [OF v]])
  moreover have "length p = N" using agrees_length [OF ag] by simp
  moreover have "\<forall>c<N. \<forall>w. map_of opened (int r, int c) = Some w \<longrightarrow> p ! c = w"
    using ag by (auto simp: agrees_iff_nth)
  ultimately show ?R by simp
next
  assume R: ?R
  have ag: "agrees (row_fixed_of opened r) p"
    unfolding agrees_iff_nth
  proof (intro conjI allI impI)
    show "length p = length (row_fixed_of opened r)" using R by simp
  next
    fix c assume "c < length (row_fixed_of opened r)"
    then have c: "c < N" by simp
    then have "p ! c \<in> set p" using R by simp
    then have "p ! c \<in> {0, 1, 2, 3}" using R by blast
    then show "case row_fixed_of opened r ! c of Some w \<Rightarrow> p ! c = w
               | None \<Rightarrow> p ! c \<in> {0, 1, 2, 3}"
      using R c by (simp split: option.split)
  qed
  note cnt = agrees_counts [OF ag]
  have "free_bombs (row_fixed_of opened r) p = row_Z row_bombs opened r"
    using cnt R by (simp add: row_Z_def row_Z_conv [OF k])
  moreover have "free_sum (row_fixed_of opened r) p = row_R row_sums opened r"
    using cnt R by (simp add: row_R_def row_S_conv [OF k])
  ultimately show ?L
    using ag by (simp add: row_pats_def row_ref_set)
qed

definition is_board ::
  "int list \<Rightarrow> int list \<Rightarrow> int list \<Rightarrow> int list \<Rightarrow> opened_map \<Rightarrow> val list list \<Rightarrow> bool" where
  "is_board row_sums row_bombs col_sums col_bombs opened g =
     (length g = N \<and> (\<forall>row\<in>set g. length row = N \<and> set row \<subseteq> {0, 1, 2, 3})
      \<and> (\<forall>r\<in>{0..<N}. bomb_count (g ! r) = row_bombs ! r \<and> nonbomb_sum (g ! r) = row_sums ! r)
      \<and> (\<forall>c\<in>{0..<N}. bomb_count (column g c) = col_bombs ! c
                        \<and> nonbomb_sum (column g c) = col_sums ! c)
      \<and> (\<forall>((r, c), v)\<in>set opened. g ! nat r ! nat c = v))"

lemma opened_agree:
  assumes "keys_ok opened"
  shows "(\<forall>((r, c), v)\<in>set opened. g ! nat r ! nat c = v)
         = (\<forall>r<N. \<forall>c<N. \<forall>w. map_of opened (int r, int c) = Some w \<longrightarrow> g ! r ! c = w)"
  (is "?L = ?R")
proof
  assume L: ?L
  show ?R
  proof (intro allI impI)
    fix r c w assume "map_of opened (int r, int c) = Some w"
    then have "((int r, int c), w) \<in> set opened" by (rule map_of_SomeD)
    with L show "g ! r ! c = w" by fastforce
  qed
next
  assume R: ?R
  show ?L
  proof (clarify)
    fix r c v assume mem: "((r, c), v) \<in> set opened"
    from assms have d: "distinct (map fst opened)" by (simp add: keys_ok_def)
    from assms mem have rng: "0 \<le> r" "r < int N" "0 \<le> c" "c < int N"
      by (auto simp: keys_ok_def)
    from map_of_is_SomeI [OF d mem] have "map_of opened (int (nat r), int (nat c)) = Some v"
      using rng by simp
    moreover have "nat r < N" "nat c < N" using rng by simp_all
    ultimately show "g ! nat r ! nat c = v" using R by blast
  qed
qed

lemma in_product_lists_nth:
  "(g \<in> set (product_lists (map f [0..<n]))) = (length g = n \<and> (\<forall>r<n. g ! r \<in> set (f r)))"
  by (auto simp: product_lists_set list_all2_conv_all_nth)

lemma in_completions:
  "(g \<in> set (completions col_sums col_bombs arp [])) =
     (g \<in> set (product_lists arp) \<and> cols_ok col_sums col_bombs g)"
proof -
  have "map ((@) []) xs = xs" for xs :: "val list list list"
    by (induction xs) simp_all
  then show ?thesis by (simp add: completions_def)
qed

lemma distinct_completions:
  assumes "\<forall>pats\<in>set arp. distinct pats"
  shows "distinct (completions col_sums col_bombs arp [])"
proof -
  have "map ((@) []) xs = xs" for xs :: "val list list list"
    by (induction xs) simp_all
  then show ?thesis
    using distinct_product_lists [OF assms] by (simp add: completions_def)
qed

lemma completions_is_board:
  assumes k: "keys_ok opened" and v: "vals_ok opened"
  shows "(g \<in> set (completions col_sums col_bombs (map (row_pats row_sums row_bombs opened) [0..<N]) []))
         = is_board row_sums row_bombs col_sums col_bombs opened g"
  (is "?L = ?R")
proof
  assume ?L
  then have len: "length g = N"
    and rows: "\<forall>r<N. g ! r \<in> set (row_pats row_sums row_bombs opened r)"
    and cols: "cols_ok col_sums col_bombs g"
    by (simp_all add: in_completions in_product_lists_nth)
  have row: "length (g ! r) = N \<and> set (g ! r) \<subseteq> {0, 1, 2, 3}
          \<and> bomb_count (g ! r) = row_bombs ! r \<and> sum_list (g ! r) = row_sums ! r
          \<and> (\<forall>c<N. \<forall>w. map_of opened (int r, int c) = Some w \<longrightarrow> g ! r ! c = w)"
    if "r < N" for r
    using rows that in_row_pats [OF k v, of "g ! r" row_sums row_bombs r] by blast
  have "\<forall>row\<in>set g. length row = N \<and> set row \<subseteq> {0, 1, 2, 3}"
    using row len by (simp add: all_set_conv_all_nth)
  moreover have "\<forall>((r, c), w)\<in>set opened. g ! nat r ! nat c = w"
    unfolding opened_agree [OF k] using row by blast
  ultimately show ?R
    using len row cols by (simp add: is_board_def nonbomb_sum_conv cols_ok_def)
next
  assume R: ?R
  then have len: "length g = N" by (simp add: is_board_def)
  from R have ag: "\<forall>r<N. \<forall>c<N. \<forall>w. map_of opened (int r, int c) = Some w \<longrightarrow> g ! r ! c = w"
    using opened_agree [OF k, of g] by (simp add: is_board_def)
  have "g ! r \<in> set (row_pats row_sums row_bombs opened r)" if r: "r < N" for r
  proof -
    have "g ! r \<in> set g" using r len by simp
    with R have "length (g ! r) = N \<and> set (g ! r) \<subseteq> {0, 1, 2, 3}"
      by (simp add: is_board_def)
    moreover from R r have "bomb_count (g ! r) = row_bombs ! r \<and> sum_list (g ! r) = row_sums ! r"
      by (simp add: is_board_def nonbomb_sum_conv)
    ultimately show ?thesis
      using ag r by (simp add: in_row_pats [OF k v])
  qed
  moreover from R have "cols_ok col_sums col_bombs g"
    by (simp add: is_board_def cols_ok_def nonbomb_sum_conv)
  ultimately show ?L
    using len by (simp add: in_completions in_product_lists_nth)
qed

definition cell :: "val list list \<Rightarrow> coord \<Rightarrow> val" where
  "cell g rc = g ! nat (fst rc) ! nat (snd rc)"

definition bump :: "val list list \<Rightarrow> coord \<Rightarrow> int list \<Rightarrow> int list" where
  "bump g rc d = d[nat (cell g rc) := d ! nat (cell g rc) + 1]"

lemma map_fst_upd:
  "map fst (map (\<lambda>(k, d). if P k then (k, f k d) else (k, d)) counts) = map fst counts"
  by (induction counts) auto

lemma tally_incr_eq:
  assumes "rc \<in> set (map fst counts)" and "0 \<le> v" and "v \<le> 3"
  shows "tally_incr rc v counts
         = Inr (map (\<lambda>(k, d). if k = rc then (k, d[nat v := d ! nat v + 1]) else (k, d)) counts)"
proof -
  from assms(1) have "map_of counts rc \<noteq> None"
    by (simp add: map_of_eq_None_iff)
  with assms(2,3) show ?thesis
    by (auto simp: tally_incr_def)
qed

lemma inner_loop:
  "distinct ts \<Longrightarrow> set ts \<subseteq> set (map fst counts) \<Longrightarrow>
   \<forall>rc\<in>set ts. 0 \<le> cell g rc \<and> cell g rc \<le> 3 \<Longrightarrow>
   for_each (\<lambda>(r, c). tally_incr (r, c) (g ! nat r ! nat c)) ts counts
   = Inr (map (\<lambda>(k, d). if k \<in> set ts then (k, bump g k d) else (k, d)) counts)"
proof (induction ts arbitrary: counts)
  case Nil
  then show ?case by (simp add: case_prod_unfold)
next
  case (Cons rc ts)
  let ?c1 = "map (\<lambda>(k, d). if k = rc then (k, bump g rc d) else (k, d)) counts"
  have keys: "map fst ?c1 = map fst counts"
    by (rule map_fst_upd)
  have pre: "rc \<in> set (map fst counts)" "0 \<le> cell g rc" "cell g rc \<le> 3"
    using Cons.prems by simp_all
  have "tally_incr rc (cell g rc) counts = Inr ?c1"
    by (simp only: bump_def tally_incr_eq [OF pre])
  then have first: "tally_incr rc (g ! nat (fst rc) ! nat (snd rc)) counts = Inr ?c1"
    by (simp only: cell_def)
  have IH: "for_each (\<lambda>(r, c). tally_incr (r, c) (g ! nat r ! nat c)) ts ?c1
            = Inr (map (\<lambda>(k, d). if k \<in> set ts then (k, bump g k d) else (k, d)) ?c1)"
    using Cons.prems by (intro Cons.IH) (simp_all only: keys, simp_all)
  have "map (\<lambda>(k, d). if k \<in> set ts then (k, bump g k d) else (k, d)) ?c1
        = map (\<lambda>(k, d). if k \<in> set (rc # ts) then (k, bump g k d) else (k, d)) counts"
    using Cons.prems(1) by (auto simp: comp_def)
  with first IH show ?case
    by (simp add: case_prod_unfold)
qed

lemma inner_loop_all:
  assumes "distinct (map fst counts)"
    and "\<forall>rc\<in>set (map fst counts). 0 \<le> cell g rc \<and> cell g rc \<le> 3"
  shows "for_each (\<lambda>(r, c). tally_incr (r, c) (g ! nat r ! nat c)) (map fst counts) counts
         = Inr (map (\<lambda>(k, d). (k, bump g k d)) counts)"
proof -
  have "map (\<lambda>(k, d). if k \<in> set (map fst counts) then (k, bump g k d) else (k, d)) counts
        = map (\<lambda>(k, d). (k, bump g k d)) counts"
  proof (intro map_cong refl)
    fix x assume "x \<in> set counts"
    then have "fst x \<in> set (map fst counts)" by simp
    then show "(case x of (k, d) \<Rightarrow> if k \<in> set (map fst counts) then (k, bump g k d) else (k, d))
               = (case x of (k, d) \<Rightarrow> (k, bump g k d))"
      by (simp add: case_prod_unfold)
  qed
  with inner_loop [OF assms(1) _ assms(2)] show ?thesis by simp
qed

lemma outer_loop:
  "distinct targets \<Longrightarrow>
   \<forall>g\<in>set sols. \<forall>rc\<in>set targets. 0 \<le> cell g rc \<and> cell g rc \<le> 3 \<Longrightarrow>
   for_each (\<lambda>g. for_each (\<lambda>(r, c). tally_incr (r, c) (g ! nat r ! nat c)) targets) sols
     (map (\<lambda>rc. (rc, d0 rc)) targets)
   = Inr (map (\<lambda>rc. (rc, fold (\<lambda>g. bump g rc) sols (d0 rc))) targets)"
proof (induction sols arbitrary: d0)
  case Nil
  then show ?case by simp
next
  case (Cons g sols)
  let ?counts = "map (\<lambda>rc. (rc, d0 rc)) targets"
  have fst: "map fst ?counts = targets" by (simp add: comp_def)
  have "for_each (\<lambda>(r, c). tally_incr (r, c) (g ! nat r ! nat c)) (map fst ?counts) ?counts
        = Inr (map (\<lambda>(k, d). (k, bump g k d)) ?counts)"
    using Cons.prems by (intro inner_loop_all) (simp_all add: comp_def)
  then have inner: "for_each (\<lambda>(r, c). tally_incr (r, c) (g ! nat r ! nat c)) targets ?counts
        = Inr (map (\<lambda>rc. (rc, bump g rc (d0 rc))) targets)"
    by (simp add: fst comp_def)
  from Cons.prems have "\<forall>g\<in>set sols. \<forall>rc\<in>set targets. 0 \<le> cell g rc \<and> cell g rc \<le> 3"
    by simp
  from Cons.IH [OF Cons.prems(1) this, of "\<lambda>rc. bump g rc (d0 rc)"] inner
  show ?case by simp
qed

definition in_range :: "val list list \<Rightarrow> coord list \<Rightarrow> bool" where
  "in_range g ts = (\<forall>rc\<in>set ts. 0 \<le> cell g rc \<and> cell g rc \<le> 3)"

definition tally_of :: "coord \<Rightarrow> val list list list \<Rightarrow> int list" where
  "tally_of rc sols = fold (\<lambda>g. bump g rc) sols [0, 0, 0, 0]"

lemma sum_list_bump_nth:
  fixes d :: "int list"
  shows "i < length d \<Longrightarrow> sum_list (d[i := d ! i + 1]) = sum_list d + 1"
proof (induction d arbitrary: i)
  case Nil
  then show ?case by simp
next
  case (Cons x d)
  then show ?case by (cases i) simp_all
qed

lemma length_fold_bump [simp]: "length (fold (\<lambda>g. bump g rc) sols d) = length d"
  by (induction sols arbitrary: d) (simp_all add: bump_def)

lemma sum_fold_bump:
  "length d = 4 \<Longrightarrow> \<forall>g\<in>set sols. 0 \<le> cell g rc \<and> cell g rc \<le> 3 \<Longrightarrow>
   sum_list (fold (\<lambda>g. bump g rc) sols d) = sum_list d + int (length sols)"
proof (induction sols arbitrary: d)
  case Nil
  then show ?case by simp
next
  case (Cons g sols)
  then have "nat (cell g rc) < length d" by (auto simp: nat_less_iff)
  then have "sum_list (bump g rc d) = sum_list d + 1"
    unfolding bump_def by (rule sum_list_bump_nth)
  moreover have "length (bump g rc d) = 4" using Cons.prems(1) by (simp add: bump_def)
  ultimately show ?case using Cons by simp
qed

lemma nth_fold_bump:
  "length d = 4 \<Longrightarrow> \<forall>g\<in>set sols. 0 \<le> cell g rc \<and> cell g rc \<le> 3 \<Longrightarrow> 0 \<le> v \<Longrightarrow> v \<le> 3 \<Longrightarrow>
   fold (\<lambda>g. bump g rc) sols d ! nat v
   = d ! nat v + int (length (filter (\<lambda>g. cell g rc = v) sols))"
proof (induction sols arbitrary: d)
  case Nil
  then show ?case by simp
next
  case (Cons g sols)
  have len: "length (bump g rc d) = 4" using Cons.prems(1) by (simp add: bump_def)
  from Cons.prems have g: "0 \<le> cell g rc" "cell g rc \<le> 3" by simp_all
  have "bump g rc d ! nat v = d ! nat v + (if cell g rc = v then 1 else 0)"
    using Cons.prems(1,3,4) g by (auto simp: bump_def nth_list_update)
  with Cons.IH [OF len _ Cons.prems(3,4)] Cons.prems(2) show ?case by simp
qed

lemma tally_incr_Inr:
  assumes "tally_incr rc v counts = Inr c'"
  shows "rc \<in> set (map fst counts) \<and> 0 \<le> v \<and> v \<le> 3 \<and> map fst c' = map fst counts"
proof -
  from assms obtain d where d: "map_of counts rc = Some d"
    by (auto simp: tally_incr_def split: option.splits)
  then have "(rc, d) \<in> set counts" by (rule map_of_SomeD)
  then have "rc \<in> set (map fst counts)" by force
  moreover from assms d have "0 \<le> v \<and> v \<le> 3"
    by (auto simp: tally_incr_def split: if_splits)
  moreover from assms d have "map fst c' = map fst counts"
    by (auto simp: tally_incr_def map_fst_upd split: if_splits)
  ultimately show ?thesis by simp
qed

lemma inner_success:
  "for_each (\<lambda>(r, c). tally_incr (r, c) (g ! nat r ! nat c)) ts counts = Inr c' \<Longrightarrow>
   in_range g ts \<and> map fst c' = map fst counts"
proof (induction ts arbitrary: counts)
  case Nil
  then show ?case by (simp add: in_range_def)
next
  case (Cons rc ts)
  from Cons.prems obtain c1 where
    c1: "tally_incr rc (cell g rc) counts = Inr c1"
    and rest: "for_each (\<lambda>(r, c). tally_incr (r, c) (g ! nat r ! nat c)) ts c1 = Inr c'"
    by (auto simp: case_prod_unfold cell_def split: sum.splits)
  from tally_incr_Inr [OF c1] Cons.IH [OF rest] show ?case
    by (simp add: in_range_def)
qed

lemma outer_success:
  "for_each (\<lambda>g. for_each (\<lambda>(r, c). tally_incr (r, c) (g ! nat r ! nat c)) ts) sols counts
     = Inr c' \<Longrightarrow>
   (\<forall>g\<in>set sols. in_range g ts) \<and> map fst c' = map fst counts"
proof (induction sols arbitrary: counts)
  case Nil
  then show ?case by simp
next
  case (Cons g sols)
  from Cons.prems obtain c1 where
    c1: "for_each (\<lambda>(r, c). tally_incr (r, c) (g ! nat r ! nat c)) ts counts = Inr c1"
    and rest: "for_each (\<lambda>g. for_each (\<lambda>(r, c). tally_incr (r, c) (g ! nat r ! nat c)) ts)
                 sols c1 = Inr c'"
    by (auto split: sum.splits)
  from inner_success [OF c1] Cons.IH [OF rest] show ?case by simp
qed

lemma tally_counts_closed:
  assumes "distinct (targets_of opened)" and "\<forall>g\<in>set sols. in_range g (targets_of opened)"
  shows "tally_counts opened sols = Inr (map (\<lambda>rc. (rc, tally_of rc sols)) (targets_of opened))"
  using outer_loop [OF assms(1), of sols "\<lambda>rc. [0, 0, 0, 0]"] assms(2)
  by (simp add: tally_counts_def Let_def tally_of_def in_range_def)

lemma tally_counts_Inr:
  assumes "tally_counts opened sols = Inr counts"
  shows "\<forall>g\<in>set sols. in_range g (targets_of opened)"
  using outer_success [of "targets_of opened" sols _ counts] assms
  by (simp add: tally_counts_def Let_def)

definition row_major_less :: "coord \<Rightarrow> coord \<Rightarrow> bool" where
  "row_major_less a b = (fst a < fst b \<or> (fst a = fst b \<and> snd a < snd b))"

lemma sorted_row_cells:
  "sorted_wrt row_major_less (map (\<lambda>c. (int r, int c)) (filter P [0..<m]))"
proof -
  have "sorted_wrt (<) (filter P [0..<m])"
    by (rule sorted_wrt_filter) simp
  then have "sorted_wrt (\<lambda>x y. row_major_less (int r, int x) (int r, int y)) (filter P [0..<m])"
    by (rule sorted_wrt_mono_rel [rotated]) (simp add: row_major_less_def)
  then show ?thesis by (simp add: sorted_wrt_map)
qed

lemma sorted_cells:
  "sorted_wrt row_major_less
     (concat (map (\<lambda>r. map (\<lambda>c. (int r, int c)) (filter (P r) [0..<m])) [0..<n]))"
proof (induction n)
  case 0
  then show ?case by simp
next
  case (Suc n)
  have "row_major_less x y"
    if "x \<in> set (concat (map (\<lambda>r. map (\<lambda>c. (int r, int c)) (filter (P r) [0..<m])) [0..<n]))"
      and "y \<in> set (map (\<lambda>c. (int n, int c)) (filter (P n) [0..<m]))" for x y
    using that by (auto simp: row_major_less_def)
  with Suc.IH sorted_row_cells [of n "P n" m] show ?case
    by (simp add: sorted_wrt_append)
qed

lemma targets_sorted: "sorted_wrt row_major_less (targets_of opened)"
  unfolding targets_of_def by (rule sorted_cells)

lemma sorted_wrt_distinct:
  "(\<And>x. \<not> R x x) \<Longrightarrow> sorted_wrt R xs \<Longrightarrow> distinct xs"
  by (induction xs) auto

lemma targets_distinct: "distinct (targets_of opened)"
  by (rule sorted_wrt_distinct [OF _ targets_sorted]) (simp add: row_major_less_def)

lemma targets_set:
  "set (targets_of opened)
   = {(int r, int c) |r c. r < N \<and> c < N \<and> map_of opened (int r, int c) = None}"
  by (auto simp: targets_of_def)

lemma map_fst_post_of:
  "map fst (post_of rnd counts) = map fst (filter (\<lambda>(rc, d). sum_list d \<noteq> 0) counts)"
  by (induction counts) (auto simp: Let_def)

lemma post_of_all:
  "\<forall>(rc, d)\<in>set counts. sum_list d \<noteq> 0 \<Longrightarrow>
   post_of rnd counts =
     map (\<lambda>(rc, d).
            (rc, \<lparr>rec_total = sum_list d,
                  rec_p = [fdiv rnd (d ! 0) (sum_list d), fdiv rnd (d ! 1) (sum_list d),
                           fdiv rnd (d ! 2) (sum_list d), fdiv rnd (d ! 3) (sum_list d)],
                  rec_ev = fadd rnd (fadd rnd (fmul rnd 1 (fdiv rnd (d ! 1) (sum_list d)))
                                              (fmul rnd 2 (fdiv rnd (d ! 2) (sum_list d))))
                                    (fmul rnd 3 (fdiv rnd (d ! 3) (sum_list d)))\<rparr>))
       counts"
  by (induction counts) (auto simp: Let_def)

lemma tally_of_props:
  assumes "\<forall>g\<in>set sols. in_range g ts" and "rc \<in> set ts"
  shows "sum_list (tally_of rc sols) = int (length sols)"
    and "length (tally_of rc sols) = 4"
    and "0 \<le> v \<Longrightarrow> v \<le> 3 \<Longrightarrow>
         tally_of rc sols ! nat v = int (length (filter (\<lambda>g. cell g rc = v) sols))"
proof -
  have r: "\<forall>g\<in>set sols. 0 \<le> cell g rc \<and> cell g rc \<le> 3"
    using assms by (auto simp: in_range_def)
  show "sum_list (tally_of rc sols) = int (length sols)"
    using sum_fold_bump [OF _ r, of "[0, 0, 0, 0]"] by (simp add: tally_of_def)
  show "length (tally_of rc sols) = 4" by (simp add: tally_of_def)
  show "tally_of rc sols ! nat v = int (length (filter (\<lambda>g. cell g rc = v) sols))"
    if "0 \<le> v" "v \<le> 3"
  proof -
    have "[0, 0, 0, 0::int] ! nat v = 0"
      using that by (cases "nat v") (auto simp: nth_Cons')
    with nth_fold_bump [OF _ r that, of "[0, 0, 0, 0]"] show ?thesis
      by (simp add: tally_of_def)
  qed
qed

definition record_of :: "(real \<Rightarrow> real) \<Rightarrow> int list \<Rightarrow> posterior" where
  "record_of rnd d =
     \<lparr>rec_total = sum_list d,
      rec_p = [fdiv rnd (d ! 0) (sum_list d), fdiv rnd (d ! 1) (sum_list d),
               fdiv rnd (d ! 2) (sum_list d), fdiv rnd (d ! 3) (sum_list d)],
      rec_ev = fadd rnd (fadd rnd (fmul rnd 1 (fdiv rnd (d ! 1) (sum_list d)))
                                  (fmul rnd 2 (fdiv rnd (d ! 2) (sum_list d))))
                        (fmul rnd 3 (fdiv rnd (d ! 3) (sum_list d)))\<rparr>"

lemma compute_posteriors_Inr:
  assumes "compute_posteriors rnd row_sums row_bombs col_sums col_bombs opened = Inr (post, n)"
  obtains sols where "enumerate_all_boards row_sums row_bombs col_sums col_bombs opened = Inr sols"
    and "n = int (length sols)"
    and "sols = [] \<Longrightarrow> post = []"
    and "sols \<noteq> [] \<Longrightarrow> \<forall>g\<in>set sols. in_range g (targets_of opened)"
    and "sols \<noteq> [] \<Longrightarrow>
         tally_counts opened sols = Inr (map (\<lambda>rc. (rc, tally_of rc sols)) (targets_of opened))"
    and "sols \<noteq> [] \<Longrightarrow>
         post = map (\<lambda>rc. (rc, record_of rnd (tally_of rc sols))) (targets_of opened)"
proof -
  from assms obtain sols where
    e: "enumerate_all_boards row_sums row_bombs col_sums col_bombs opened = Inr sols"
    by (auto simp: compute_posteriors_def split: sum.splits)
  show ?thesis
  proof (cases "sols = []")
    case True
    with assms e have "post = []" "n = int (length sols)"
      by (simp_all add: compute_posteriors_def)
    with e True show ?thesis by (intro that [of sols]) simp_all
  next
    case False
    with assms e obtain counts where
      t: "tally_counts opened sols = Inr counts" and p: "post = post_of rnd counts"
      and n: "n = int (length sols)"
      by (auto simp: compute_posteriors_def split: sum.splits)
    note rng = tally_counts_Inr [OF t]
    note cl = tally_counts_closed [OF targets_distinct rng]
    with t have c: "counts = map (\<lambda>rc. (rc, tally_of rc sols)) (targets_of opened)" by simp
    have nz: "\<forall>(rc, d)\<in>set counts. sum_list d \<noteq> 0"
      using False tally_of_props(1) [OF rng] by (auto simp: c)
    have "post = map (\<lambda>rc. (rc, record_of rnd (tally_of rc sols))) (targets_of opened)"
      unfolding p post_of_all [OF nz] by (simp add: c comp_def record_of_def)
    with e n rng cl False show ?thesis by (intro that [of sols]) simp_all
  qed
qed

lemma compute_posteriors_shape:
  assumes "compute_posteriors rnd row_sums row_bombs col_sums col_bombs opened = Inr (post, n)"
  shows "\<exists>sols. enumerate_all_boards row_sums row_bombs col_sums col_bombs opened = Inr sols
           \<and> n = int (length sols)
           \<and> (sols = [] \<longrightarrow> post = [])
           \<and> (sols \<noteq> [] \<longrightarrow>
                (\<forall>g\<in>set sols. in_range g (targets_of opened))
                \<and> tally_counts opened sols
                    = Inr (map (\<lambda>rc. (rc, tally_of rc sols)) (targets_of opened))
                \<and> post = map (\<lambda>rc. (rc, record_of rnd (tally_of rc sols))) (targets_of opened))"
  by (rule compute_posteriors_Inr [OF assms]) blast

lemma boards_in_range:
  assumes "g \<in> set (completions col_sums col_bombs (map (row_pats row_sums row_bombs opened) [0..<N]) [])"
  shows "in_range g (targets_of opened)"
  unfolding in_range_def
proof
  fix rc assume "rc \<in> set (targets_of opened)"
  then obtain r c where rc: "rc = (int r, int c)" and r: "r < N" and c: "c < N"
    and free: "map_of opened (int r, int c) = None"
    by (auto simp: targets_set)
  from assms r have "g ! r \<in> set (row_pats row_sums row_bombs opened r)"
    by (simp add: in_completions in_product_lists_nth)
  then have "agrees (row_fixed_of opened r) (g ! r)"
    by (simp add: row_pats_def row_ref_set)
  from agrees_nth [OF this, of c] c free have "g ! r ! c \<in> {0, 1, 2, 3}" by simp
  then show "0 \<le> cell g rc \<and> cell g rc \<le> 3"
    by (auto simp: cell_def rc)
qed

lemma compute_posteriors_returns:
  assumes "N \<le> length row_sums" and "N \<le> length row_bombs"
    and "N \<le> length col_sums" and "N \<le> length col_bombs"
  shows "\<exists>post n. compute_posteriors rnd row_sums row_bombs col_sums col_bombs opened = Inr (post, n)"
proof -
  let ?sols = "completions col_sums col_bombs (map (row_pats row_sums row_bombs opened) [0..<N]) []"
  have e: "enumerate_all_boards row_sums row_bombs col_sums col_bombs opened = Inr ?sols"
    by (rule enumerate_all_boards_eq [OF assms])
  have "\<forall>g\<in>set ?sols. in_range g (targets_of opened)"
    using boards_in_range by blast
  from tally_counts_closed [OF targets_distinct this] e show ?thesis
    by (simp add: compute_posteriors_def)
qed

lemma key_less_irrefl: "\<not> key_less a a"
  by (simp add: key_less_def)

lemma key_less_trans: "key_less a b \<Longrightarrow> key_less b c \<Longrightarrow> key_less a c"
  by (auto simp: key_less_def split: if_splits)

lemma key_less_le_trans: "key_less a b \<Longrightarrow> \<not> key_less c b \<Longrightarrow> key_less a c"
  by (cases a, cases b, cases c) (auto simp: key_less_def split: if_splits)

lemma key_le_less_trans: "\<not> key_less b a \<Longrightarrow> key_less b c \<Longrightarrow> key_less a c \<or> a = b"
  by (cases a, cases b, cases c) (auto simp: key_less_def split: if_splits)

lemma min_by_key_split:
  "\<exists>pre post. best # xs = pre @ min_by_key f best xs # post
     \<and> (\<forall>y\<in>set pre. key_less (f (min_by_key f best xs)) (f y))
     \<and> (\<forall>y\<in>set post. \<not> key_less (f y) (f (min_by_key f best xs)))"
proof (induction xs arbitrary: best)
  case Nil
  show ?case by (intro exI [of _ "[]"]) simp
next
  case (Cons x xs)
  show ?case
  proof (cases "key_less (f x) (f best)")
    case True
    let ?res = "min_by_key f x xs"
    from Cons.IH [of x] obtain pre post where
      sp: "x # xs = pre @ ?res # post"
      and pre: "\<forall>y\<in>set pre. key_less (f ?res) (f y)"
      and post: "\<forall>y\<in>set post. \<not> key_less (f y) (f ?res)"
      by blast
    have "key_less (f ?res) (f x) \<or> ?res = x"
    proof (cases pre)
      case Nil
      from sp have "x # xs = ?res # post" by (simp only: Nil append_Nil)
      then have "x = ?res" by (rule list.inject [THEN iffD1, THEN conjunct1])
      then show ?thesis by (rule disjI2 [OF sym])
    next
      case (Cons a pre')
      with sp have "x \<in> set pre" by simp
      with pre show ?thesis by blast
    qed
    then have "key_less (f ?res) (f best)"
    proof
      assume "key_less (f ?res) (f x)"
      from key_less_trans [OF this True] show ?thesis .
    next
      assume "?res = x"
      with True show ?thesis by (simp only:)
    qed
    with pre have all: "\<forall>y\<in>set (best # pre). key_less (f ?res) (f y)" by simp
    from sp have dec: "best # x # xs = (best # pre) @ ?res # post" by simp
    have eq: "min_by_key f best (x # xs) = ?res" using True by simp
    show ?thesis
      unfolding eq using dec all post by blast
  next
    case False
    let ?res = "min_by_key f best xs"
    from Cons.IH [of best] obtain pre post where
      sp: "best # xs = pre @ ?res # post"
      and pre: "\<forall>y\<in>set pre. key_less (f ?res) (f y)"
      and post: "\<forall>y\<in>set post. \<not> key_less (f y) (f ?res)"
      by blast
    show ?thesis
    proof (cases pre)
      case Nil
      from sp have "best # xs = ?res # post" by (simp only: Nil append_Nil)
      then have "best = ?res \<and> xs = post" by (rule list.inject [THEN iffD1])
      then have res: "?res = best" and xs: "xs = post" by (rule conjunct1 [THEN sym], rule conjunct2)
      from post have post_xs: "\<forall>y\<in>set xs. \<not> key_less (f y) (f ?res)"
        unfolding xs [symmetric] .
      have all: "\<forall>y\<in>set (x # xs). \<not> key_less (f y) (f best)"
        using post_xs [unfolded res] False by simp
      have dec: "best # x # xs = [] @ best # (x # xs)" by simp
      have none: "\<forall>y\<in>set []. key_less (f best) (f y)" by simp
      have eq: "min_by_key f best (x # xs) = ?res" using False by simp
      show ?thesis
        unfolding eq res using dec all none by blast
    next
      case (Cons a pre')
      from sp have "best # xs = a # (pre' @ ?res # post)" by (simp only: Cons append_Cons)
      then have "best = a \<and> xs = pre' @ ?res # post" by (rule list.inject [THEN iffD1])
      then have a: "a = best" and xs: "xs = pre' @ ?res # post"
        by (rule conjunct1 [THEN sym], rule conjunct2)
      from pre Cons a have rb: "key_less (f ?res) (f best)" by simp
      from key_less_le_trans [OF rb False] have "key_less (f ?res) (f x)" .
      with pre Cons a have all: "\<forall>y\<in>set (best # x # pre'). key_less (f ?res) (f y)" by simp
      have "best # x # xs = best # x # (pre' @ ?res # post)"
        using xs by (rule arg_cong [where f = "\<lambda>z. best # x # z"])
      then have dec: "best # x # xs = (best # x # pre') @ ?res # post"
        by (simp only: append_Cons)
      have eq: "min_by_key f best (x # xs) = ?res" using False by simp
      show ?thesis
        unfolding eq using dec all post by blast
    qed
  qed
qed

lemma enumerate_row_patterns_Inr:
  assumes "enumerate_row_patterns r row_sums row_bombs col_sums col_bombs opened = Inr pats"
  shows "r < length row_sums \<and> r < length row_bombs"
proof (rule ccontr)
  assume "\<not> (r < length row_sums \<and> r < length row_bombs)"
  then have "row_remaining r row_sums row_bombs opened = Inl IndexError"
    by (auto simp: row_remaining_def Let_def)
  with assms show False by (simp add: enumerate_row_patterns_def)
qed

lemma collect_stops:
  assumes empty: "enumerate_row_patterns r row_sums row_bombs col_sums col_bombs opened = Inr []"
  shows "\<forall>r'\<in>set pre. r' < length row_sums \<and> r' < length row_bombs \<Longrightarrow>
         collect_row_patterns row_sums row_bombs col_sums col_bombs opened (pre @ r # post) arp0
         = Inr None"
proof (induction pre arbitrary: arp0)
  case Nil
  show ?case by (simp add: empty)
next
  case (Cons r' pre)
  then have "enumerate_row_patterns r' row_sums row_bombs col_sums col_bombs opened
             = Inr (row_pats row_sums row_bombs opened r')"
    by (simp add: enumerate_row_patterns_eq)
  with Cons show ?case by simp
qed

lemma empty_row_stops:
  assumes "r < N"
    and "enumerate_row_patterns r row_sums row_bombs col_sums col_bombs opened = Inr []"
  shows "search_all_boards row_sums row_bombs col_sums col_bombs opened = Inr None"
proof -
  from enumerate_row_patterns_Inr [OF assms(2)]
  have "\<forall>r'\<in>set [0..<r]. r' < length row_sums \<and> r' < length row_bombs" by simp
  from collect_stops [OF assms(2) this, of "[Suc r..<N]" "[]"]
  have "collect_row_patterns row_sums row_bombs col_sums col_bombs opened
          ([0..<r] @ r # [Suc r..<N]) [] = Inr None" .
  moreover have "[0..<N] = [0..<r] @ r # [Suc r..<N]"
  proof -
    have "[0..<r + (N - r)] = [0..<r] @ [r..<r + (N - r)]"
      by (rule upt_add_eq_append) simp
    then show ?thesis using assms(1) by (simp add: upt_conv_Cons)
  qed
  ultimately show ?thesis by (simp add: search_all_boards_def)
qed

text \<open>Placing a row and rolling it back leave the dictionary of the state alone.\<close>

lemma place_row_pat_opened [simp]:
  "opened_dict (place_row_pat r p xs ys st) = opened_dict st"
  by (simp add: place_row_pat_def state_fold_place)

lemma rollback_opened [simp]: "opened_dict (rollback r xs ys st) = opened_dict st"
  by (simp add: rollback_def state_fold_rollback)

text \<open>
  What the bounds below need of the rounding function: on the interval \<open>[-2, 2]\<close> a result is
  off by at most \<open>2^-53\<close>. IEEE-754 binary64 with round-to-nearest rounds by at most half a unit
  in the last place, which is \<open>2^-53\<close> below 2, and neither overflows nor loses more on a
  subnormal there.
\<close>

definition double_rounding :: "(real \<Rightarrow> real) \<Rightarrow> bool" where
  "double_rounding rnd = (\<forall>x. \<bar>x\<bar> \<le> 2 \<longrightarrow> \<bar>rnd x - x\<bar> \<le> 1 / 2 ^ 53)"

lemma rnd_abs:
  assumes "double_rounding rnd" and "\<bar>x\<bar> \<le> 2"
  shows "\<bar>rnd x - x\<bar> \<le> 1 / 2 ^ 53"
  using assms by (simp add: double_rounding_def)

lemma four_sum_bounds:
  fixes t0 t1 t2 t3 :: real
  assumes r: "double_rounding rnd"
    and t: "0 \<le> t0" "0 \<le> t1" "0 \<le> t2" "0 \<le> t3" "t0 + t1 + t2 + t3 = 1"
    and p: "p0 = rnd t0" "p1 = rnd t1" "p2 = rnd t2" "p3 = rnd t3"
  shows "\<bar>p0 + p1 + p2 + p3 - 1\<bar> \<le> 1 / 10 ^ 9"
    and "\<bar>fadd rnd (fadd rnd (fadd rnd (fadd rnd 0 p0) p1) p2) p3 - 1\<bar> \<le> 1 / 10 ^ 9"
proof -
  define k :: real where "k = 1 / 2 ^ 53"
  have k: "0 \<le> k" "8 * k \<le> 1 / 10 ^ 9" "8 * k \<le> 1" by (simp_all add: k_def)
  note ra = rnd_abs [OF r, folded k_def]
  have e0: "\<bar>p0 - t0\<bar> \<le> k" using t by (simp add: p(1)) (intro ra, simp)
  have e1: "\<bar>p1 - t1\<bar> \<le> k" using t by (simp add: p(2)) (intro ra, simp)
  have e2: "\<bar>p2 - t2\<bar> \<le> k" using t by (simp add: p(3)) (intro ra, simp)
  have e3: "\<bar>p3 - t3\<bar> \<le> k" using t by (simp add: p(4)) (intro ra, simp)
  show "\<bar>p0 + p1 + p2 + p3 - 1\<bar> \<le> 1 / 10 ^ 9"
    using e0 e1 e2 e3 t(5) k by linarith
  define s0 where "s0 = fadd rnd 0 p0"
  define s1 where "s1 = fadd rnd s0 p1"
  define s2 where "s2 = fadd rnd s1 p2"
  define s3 where "s3 = fadd rnd s2 p3"
  have "\<bar>0 + p0\<bar> \<le> 2" using e0 t k by linarith
  from ra [OF this] have a0: "\<bar>s0 - p0\<bar> \<le> k" by (simp add: s0_def fadd_def)
  have "\<bar>s0 + p1\<bar> \<le> 2" using a0 e0 e1 t k by linarith
  from ra [OF this] have a1: "\<bar>s1 - (s0 + p1)\<bar> \<le> k" by (simp add: s1_def fadd_def)
  have "\<bar>s1 + p2\<bar> \<le> 2" using a0 a1 e0 e1 e2 t k by linarith
  from ra [OF this] have a2: "\<bar>s2 - (s1 + p2)\<bar> \<le> k" by (simp add: s2_def fadd_def)
  have "\<bar>s2 + p3\<bar> \<le> 2" using a0 a1 a2 e0 e1 e2 e3 t k by linarith
  from ra [OF this] have a3: "\<bar>s3 - (s2 + p3)\<bar> \<le> k" by (simp add: s3_def fadd_def)
  have "\<bar>s3 - 1\<bar> \<le> 1 / 10 ^ 9"
    using a0 a1 a2 a3 e0 e1 e2 e3 t(5) k by linarith
  then show "\<bar>fadd rnd (fadd rnd (fadd rnd (fadd rnd 0 p0) p1) p2) p3 - 1\<bar> \<le> 1 / 10 ^ 9"
    by (simp add: s3_def s2_def s1_def s0_def)
qed

section \<open>The dictionary after a solve call\<close>

text \<open>
  Each function of the solve call, run on the dictionary, gives the result of the function
  as modelled above, and leaves the dictionary as it found it.
\<close>

lemma map_st_reads:
  assumes "\<And>x. x \<in> set xs \<Longrightarrow> f x s = (g x, s)"
  shows "map_st f xs s = (map g xs, s)"
  using assms by (induction xs) simp_all

lemma filter_st_reads:
  assumes "\<And>x. x \<in> set xs \<Longrightarrow> f x s = (P x, s)"
  shows "filter_st f xs s = (filter P xs, s)"
  using assms by (induction xs) simp_all

lemma row_remaining_st_eq:
  "row_remaining_st r row_sums row_bombs d = (row_remaining r row_sums row_bombs d, d)"
proof -
  have "filter_st (\<lambda>c d. case dict_contains (int r, int c) d of (b, d') \<Rightarrow> (\<not> b, d')) [0..<N] d
        = (filter (\<lambda>c. map_of d (int r, int c) = None) [0..<N], d)"
    by (rule filter_st_reads) (simp add: dict_contains_def)
  then show ?thesis
    by (simp add: row_remaining_st_def row_remaining_def dict_items_def Let_def)
qed

lemma enumerate_row_patterns_st_eq:
  "enumerate_row_patterns_st r row_sums row_bombs col_sums col_bombs d
   = (enumerate_row_patterns r row_sums row_bombs col_sums col_bombs d, d)"
proof -
  have "map_st (\<lambda>c. dict_get (int r, int c)) [0..<N] d
        = (map (\<lambda>c. map_of d (int r, int c)) [0..<N], d)"
    by (rule map_st_reads) (simp add: dict_get_def)
  then show ?thesis
    by (simp add: enumerate_row_patterns_st_def enumerate_row_patterns_def row_remaining_st_eq
        split: sum.splits)
qed

lemma collect_row_patterns_st_eq:
  "collect_row_patterns_st row_sums row_bombs col_sums col_bombs rs arp d
   = (collect_row_patterns row_sums row_bombs col_sums col_bombs d rs arp, d)"
  by (induction rs arbitrary: arp) (simp_all add: enumerate_row_patterns_st_eq split: sum.splits)

lemma initial_state_st_eq: "initial_state_st d = initial_state d"
proof -
  have a: "map_st
             (\<lambda>c d. case map_st (\<lambda>r. dict_get_default (int r, int c) 0) [0..<N] d of
                       (vs, d') \<Rightarrow> (sum_list vs, d'))
             [0..<N] d
           = (map (\<lambda>c. sum_list (map (\<lambda>r. case map_of d (int r, int c) of
                                              None \<Rightarrow> 0 | Some v \<Rightarrow> v) [0..<N])) [0..<N], d)"
  proof (rule map_st_reads)
    fix c
    have "map_st (\<lambda>r. dict_get_default (int r, int c) 0) [0..<N] d
          = (map (\<lambda>r. case map_of d (int r, int c) of None \<Rightarrow> 0 | Some v \<Rightarrow> v) [0..<N], d)"
      by (rule map_st_reads) (simp add: dict_get_default_def)
    then show "(case map_st (\<lambda>r. dict_get_default (int r, int c) 0) [0..<N] d of
                  (vs, d') \<Rightarrow> (sum_list vs, d'))
               = (sum_list (map (\<lambda>r. case map_of d (int r, int c) of
                                         None \<Rightarrow> 0 | Some v \<Rightarrow> v) [0..<N]), d)"
      by simp
  qed
  have b: "map_st
             (\<lambda>c d. case filter_st
                            (\<lambda>r d. case dict_get (int r, int c) d of
                                      (v, d') \<Rightarrow> (v = Some 0, d'))
                            [0..<N] d of
                       (rs, d') \<Rightarrow> (sum_list (map (\<lambda>r. 1) rs), d'))
             [0..<N] d
           = (map (\<lambda>c. sum_list (map (\<lambda>r. 1)
                           (filter (\<lambda>r. map_of d (int r, int c) = Some 0) [0..<N]))) [0..<N], d)"
  proof (rule map_st_reads)
    fix c
    have "filter_st (\<lambda>r d. case dict_get (int r, int c) d of (v, d') \<Rightarrow> (v = Some 0, d'))
            [0..<N] d
          = (filter (\<lambda>r. map_of d (int r, int c) = Some 0) [0..<N], d)"
      by (rule filter_st_reads) (simp add: dict_get_def)
    then show "(case filter_st
                       (\<lambda>r d. case dict_get (int r, int c) d of (v, d') \<Rightarrow> (v = Some 0, d'))
                       [0..<N] d of
                  (rs, d') \<Rightarrow> (sum_list (map (\<lambda>r. 1) rs), d'))
               = (sum_list (map (\<lambda>r. 1)
                    (filter (\<lambda>r. map_of d (int r, int c) = Some 0) [0..<N])), d)"
      by simp
  qed
  have c: "map_st (\<lambda>r. map_st (\<lambda>c. dict_get (int r, int c)) [0..<N]) [0..<N] d
           = (map (\<lambda>r. map (\<lambda>c. map_of d (int r, int c)) [0..<N]) [0..<N], d)"
  proof (rule map_st_reads)
    fix r
    show "map_st (\<lambda>c. dict_get (int r, int c)) [0..<N] d
          = (map (\<lambda>c. map_of d (int r, int c)) [0..<N], d)"
      by (rule map_st_reads) (simp add: dict_get_def)
  qed
  show ?thesis
    by (simp only: initial_state_st_def initial_state_def a b c prod.case)
qed

lemma rollback_st_eq: "rollback_st r incr_sum incr_bz st = rollback r incr_sum incr_bz st"
proof -
  have "(\<lambda>c st.
             case dict_get (int r, int c) (opened_dict st) of
               (v, d') \<Rightarrow>
                 st\<lparr>col_sum := (col_sum st)[c := col_sum st ! c - incr_sum ! c],
                    col_bz := (col_bz st)[c := col_bz st ! c - incr_bz ! c],
                    opened_dict := d',
                    grid := (grid st)[r := (grid st ! r)[c := v]]\<rparr>)
        = (\<lambda>c st. st\<lparr>col_sum := (col_sum st)[c := col_sum st ! c - incr_sum ! c],
                      col_bz := (col_bz st)[c := col_bz st ! c - incr_bz ! c],
                      grid := (grid st)[r := (grid st ! r)[c := map_of (opened_dict st) (int r, int c)]]\<rparr>)"
    by (intro ext) (simp add: dict_get_def)
  then show ?thesis unfolding rollback_st_def rollback_def by (rule arg_cong2 [OF _ refl, THEN fun_cong])
qed

lemma rollback_st_opened [simp]: "opened_dict (rollback_st r xs ys st) = opened_dict st"
  by (simp add: rollback_st_eq)

text \<open>The assignment of line 341 is seen in the dictionary.\<close>

lemma map_of_replace:
  "map_of (map (\<lambda>(k', v'). if k' = k then (k', v) else (k', v')) d) k
   = (if map_of d k = None then None else Some v)"
  by (induction d) (auto split: if_splits)

lemma dict_setitem_writes: "map_of (snd (dict_setitem k v d)) k = Some v"
  by (simp add: dict_setitem_def map_of_replace map_add_def)

text \<open>
  A loop on the state, with its exception, against the loop that returns either the exception
  or the state.
\<close>

definition outcome :: "py_error option \<times> 's \<Rightarrow> py_error + 's" where
  "outcome x = (case x of (None, s) \<Rightarrow> Inr s | (Some e, s) \<Rightarrow> Inl e)"

lemma outcome_simps [simp]: "outcome (None, s) = Inr s" "outcome (Some e, s) = Inl e"
  by (simp_all add: outcome_def)

lemma for_each_outcome:
  assumes "\<And>x s. x \<in> set xs \<Longrightarrow> body x s = outcome (body_st x s)"
  shows "for_each body xs s = outcome (for_each_st body_st xs s)"
  using assms
proof (induction xs arbitrary: s)
  case Nil
  show ?case by simp
next
  case (Cons x xs)
  have b: "body x s = outcome (body_st x s)" by (rule Cons.prems) simp
  have r: "for_each body xs t = outcome (for_each_st body_st xs t)" for t
    by (rule Cons.IH) (simp add: Cons.prems)
  show ?case
  proof (cases "body_st x s")
    case (Pair e t)
    then show ?thesis by (cases e) (simp_all add: b r)
  qed
qed

lemma for_each_st_invariant:
  assumes "\<And>x s. x \<in> set xs \<Longrightarrow> I s \<Longrightarrow> I (snd (body x s))" and "I s"
  shows "I (snd (for_each_st body xs s))"
  using assms
proof (induction xs arbitrary: s)
  case Nil
  then show ?case by simp
next
  case (Cons x xs)
  have i1: "I (snd (body x s))"
    using Cons.prems(1) [OF list.set_intros(1) Cons.prems(2)] .
  have step: "I (snd (body y u))" if "y \<in> set xs" "I u" for y u
    using Cons.prems(1) [OF list.set_intros(2) [OF that(1)] that(2)] .
  show ?case
  proof (cases "body x s")
    case (Pair e t)
    with i1 have t: "I t" by simp
    show ?thesis
    proof (cases e)
      case None
      have "I (snd (for_each_st body xs t))"
        using step t by (rule Cons.IH)
      then show ?thesis by (simp add: Pair None)
    next
      case (Some err)
      with t show ?thesis by (simp add: Pair)
    qed
  qed
qed

text \<open>The body of the loop of \<^verbatim>\<open>dfs_row\<close>, in both forms.\<close>

lemma body_st_outcome:
  assumes "\<And>st1. k st1 = outcome (kst st1)"
    and "\<And>xs ys st2. rb xs ys st2 = rbst xs ys st2"
  shows "(case chk of
            Inl e \<Rightarrow> Inl e
          | Inr (False, xs, ys) \<Rightarrow> Inr s
          | Inr (True, xs, ys) \<Rightarrow>
              (let st1 = pl xs ys in
               case pr st1 of
                 Inl e \<Rightarrow> Inl e
               | Inr ok \<Rightarrow>
                   (case (if ok then k st1 else Inr st1) of
                      Inl e \<Rightarrow> Inl e
                    | Inr st2 \<Rightarrow> Inr (rb xs ys st2))))
       = outcome
           (case chk of
              Inl e \<Rightarrow> (Some e, s)
            | Inr (False, xs, ys) \<Rightarrow> (None, s)
            | Inr (True, xs, ys) \<Rightarrow>
                (let st1 = pl xs ys in
                 case pr st1 of
                   Inl e \<Rightarrow> (Some e, st1)
                 | Inr ok \<Rightarrow>
                     (case (if ok then kst st1 else (None, st1)) of
                        (Some e, st2) \<Rightarrow> (Some e, st2)
                      | (None, st2) \<Rightarrow> (None, rbst xs ys st2))))"
proof (cases chk)
  case (Inl e)
  then show ?thesis by simp
next
  case (Inr t)
  obtain b xs ys where t: "t = (b, xs, ys)" by (cases t)
  show ?thesis
  proof (cases b)
    case False
    then show ?thesis by (simp add: Inr t)
  next
    case True
    show ?thesis
    proof (cases "pr (pl xs ys)")
      case (Inl e)
      then show ?thesis by (simp add: Inr t True)
    next
      case ok: (Inr ok)
      show ?thesis
      proof (cases ok)
        case False
        then show ?thesis by (simp add: Inr t True ok assms(2))
      next
        case ok_True: True
        obtain e st2 where r: "kst (pl xs ys) = (e, st2)" by (cases "kst (pl xs ys)")
        then show ?thesis
          by (cases e) (simp_all add: Inr t True ok ok_True assms)
      qed
    qed
  qed
qed

lemma body_st_frame:
  assumes "\<And>xs ys. f (pl xs ys) = f s"
    and "\<And>st1. f (snd (kst st1)) = f st1"
    and "\<And>xs ys st2. f (rbst xs ys st2) = f st2"
  shows "f (snd (case chk of
              Inl e \<Rightarrow> (Some e, s)
            | Inr (False, xs, ys) \<Rightarrow> (None, s)
            | Inr (True, xs, ys) \<Rightarrow>
                (let st1 = pl xs ys in
                 case pr st1 of
                   Inl e \<Rightarrow> (Some e, st1)
                 | Inr ok \<Rightarrow>
                     (case (if ok then kst st1 else (None, st1)) of
                        (Some e, st2) \<Rightarrow> (Some e, st2)
                      | (None, st2) \<Rightarrow> (None, rbst xs ys st2))))) = f s"
proof (cases chk)
  case (Inl e)
  then show ?thesis by simp
next
  case (Inr t)
  obtain b xs ys where t: "t = (b, xs, ys)" by (cases t)
  show ?thesis
  proof (cases b)
    case False
    then show ?thesis by (simp add: Inr t)
  next
    case True
    show ?thesis
    proof (cases "pr (pl xs ys)")
      case (Inl e)
      then show ?thesis by (simp add: Inr t True assms(1))
    next
      case ok: (Inr ok)
      show ?thesis
      proof (cases ok)
        case False
        then show ?thesis by (simp add: Inr t True ok assms(1,3))
      next
        case ok_True: True
        obtain e st2 where r: "kst (pl xs ys) = (e, st2)" by (cases "kst (pl xs ys)")
        from assms(2) [of "pl xs ys"] r have "f st2 = f s" by (simp add: assms(1))
        with r show ?thesis
          by (cases e) (simp_all add: Inr t True ok ok_True assms(3))
      qed
    qed
  qed
qed

lemma dfs_row_st_outcome:
  "dfs_row arp col_sums col_bombs r st = outcome (dfs_row_st arp col_sums col_bombs r st)"
proof (induction "length arp - r" arbitrary: r st rule: less_induct)
  case less
  note unf = dfs_row.simps [of arp col_sums col_bombs r st]
    dfs_row_st.simps [of arp col_sums col_bombs r st]
  show ?case
  proof (cases "r = N")
    case True
    show ?thesis
      unfolding unf
      by (cases "cols_match col_sums col_bombs st [0..<N]"; cases "int_grid (grid st)")
        (simp_all add: True split: bool.splits)
  next
    case False
    show ?thesis
    proof (cases "length arp \<le> r")
      case True
      show ?thesis unfolding unf by (simp add: False True)
    next
      case len: False
      have IH: "dfs_row arp col_sums col_bombs (r + 1) t
                = outcome (dfs_row_st arp col_sums col_bombs (r + 1) t)" for t
        using len by (intro less.hyps) simp
      have "for_each
              (\<lambda>row_pat st.
                 case check_row_pat row_pat (grid st ! r) [0..<N] (replicate N 0) (replicate N 0) of
                   Inl e \<Rightarrow> Inl e
                 | Inr (False, incr_sum, incr_bz) \<Rightarrow> Inr st
                 | Inr (True, incr_sum, incr_bz) \<Rightarrow>
                     (let st1 = place_row_pat r row_pat incr_sum incr_bz st in
                      case prune_cols col_sums col_bombs r st1 [0..<N] of
                        Inl e \<Rightarrow> Inl e
                      | Inr ok \<Rightarrow>
                          (case (if ok then dfs_row arp col_sums col_bombs (r + 1) st1
                                 else Inr st1) of
                             Inl e \<Rightarrow> Inl e
                           | Inr st2 \<Rightarrow> Inr (rollback r incr_sum incr_bz st2))))
              (arp ! r) st
            = outcome (for_each_st
              (\<lambda>row_pat st.
                 case check_row_pat row_pat (grid st ! r) [0..<N] (replicate N 0) (replicate N 0) of
                   Inl e \<Rightarrow> (Some e, st)
                 | Inr (False, incr_sum, incr_bz) \<Rightarrow> (None, st)
                 | Inr (True, incr_sum, incr_bz) \<Rightarrow>
                     (let st1 = place_row_pat r row_pat incr_sum incr_bz st in
                      case prune_cols col_sums col_bombs r st1 [0..<N] of
                        Inl e \<Rightarrow> (Some e, st1)
                      | Inr ok \<Rightarrow>
                          (case (if ok then dfs_row_st arp col_sums col_bombs (r + 1) st1
                                 else (None, st1)) of
                             (Some e, st2) \<Rightarrow> (Some e, st2)
                           | (None, st2) \<Rightarrow> (None, rollback_st r incr_sum incr_bz st2))))
              (arp ! r) st)"
      proof (rule for_each_outcome)
        fix p s
        show "(case check_row_pat p (grid s ! r) [0..<N] (replicate N 0) (replicate N 0) of
                   Inl e \<Rightarrow> Inl e
                 | Inr (False, incr_sum, incr_bz) \<Rightarrow> Inr s
                 | Inr (True, incr_sum, incr_bz) \<Rightarrow>
                     (let st1 = place_row_pat r p incr_sum incr_bz s in
                      case prune_cols col_sums col_bombs r st1 [0..<N] of
                        Inl e \<Rightarrow> Inl e
                      | Inr ok \<Rightarrow>
                          (case (if ok then dfs_row arp col_sums col_bombs (r + 1) st1
                                 else Inr st1) of
                             Inl e \<Rightarrow> Inl e
                           | Inr st2 \<Rightarrow> Inr (rollback r incr_sum incr_bz st2))))
              = outcome
                 (case check_row_pat p (grid s ! r) [0..<N] (replicate N 0) (replicate N 0) of
                   Inl e \<Rightarrow> (Some e, s)
                 | Inr (False, incr_sum, incr_bz) \<Rightarrow> (None, s)
                 | Inr (True, incr_sum, incr_bz) \<Rightarrow>
                     (let st1 = place_row_pat r p incr_sum incr_bz s in
                      case prune_cols col_sums col_bombs r st1 [0..<N] of
                        Inl e \<Rightarrow> (Some e, st1)
                      | Inr ok \<Rightarrow>
                          (case (if ok then dfs_row_st arp col_sums col_bombs (r + 1) st1
                                 else (None, st1)) of
                             (Some e, st2) \<Rightarrow> (Some e, st2)
                           | (None, st2) \<Rightarrow> (None, rollback_st r incr_sum incr_bz st2))))"
          by (rule body_st_outcome [where k = "dfs_row arp col_sums col_bombs (r + 1)"
                and kst = "dfs_row_st arp col_sums col_bombs (r + 1)"
                and rb = "rollback r" and rbst = "rollback_st r"
                and pl = "\<lambda>xs ys. place_row_pat r p xs ys s"
                and pr = "\<lambda>st1. prune_cols col_sums col_bombs r st1 [0..<N]"])
            (simp_all only: IH rollback_st_eq)
      qed
      then show ?thesis by (simp only: unf False len if_False)
    qed
  qed
qed

text \<open>The search leaves the dictionary of the state as it found it, also when it raises.\<close>

lemma dfs_row_st_opened:
  "opened_dict (snd (dfs_row_st arp col_sums col_bombs r st)) = opened_dict st"
proof (induction "length arp - r" arbitrary: r st rule: less_induct)
  case less
  note unf = dfs_row_st.simps [of arp col_sums col_bombs r st]
  show ?case
  proof (cases "r = N")
    case True
    show ?thesis
      unfolding unf
      by (cases "cols_match col_sums col_bombs st [0..<N]"; cases "int_grid (grid st)")
        (simp_all add: True split: bool.splits)
  next
    case False
    show ?thesis
    proof (cases "length arp \<le> r")
      case True
      show ?thesis unfolding unf by (simp add: False True)
    next
      case len: False
      have IH: "opened_dict (snd (dfs_row_st arp col_sums col_bombs (r + 1) t)) = opened_dict t"
        for t
        using len by (intro less.hyps) simp
      have "opened_dict (snd (for_each_st
              (\<lambda>row_pat st.
                 case check_row_pat row_pat (grid st ! r) [0..<N] (replicate N 0) (replicate N 0) of
                   Inl e \<Rightarrow> (Some e, st)
                 | Inr (False, incr_sum, incr_bz) \<Rightarrow> (None, st)
                 | Inr (True, incr_sum, incr_bz) \<Rightarrow>
                     (let st1 = place_row_pat r row_pat incr_sum incr_bz st in
                      case prune_cols col_sums col_bombs r st1 [0..<N] of
                        Inl e \<Rightarrow> (Some e, st1)
                      | Inr ok \<Rightarrow>
                          (case (if ok then dfs_row_st arp col_sums col_bombs (r + 1) st1
                                 else (None, st1)) of
                             (Some e, st2) \<Rightarrow> (Some e, st2)
                           | (None, st2) \<Rightarrow> (None, rollback_st r incr_sum incr_bz st2))))
              (arp ! r) st)) = opened_dict st"
      proof (rule for_each_st_invariant [where I = "\<lambda>s. opened_dict s = opened_dict st"])
        show "opened_dict st = opened_dict st" by simp
      next
        fix p and s :: search_state
        assume inv: "opened_dict s = opened_dict st"
        have "opened_dict (snd
                 (case check_row_pat p (grid s ! r) [0..<N] (replicate N 0) (replicate N 0) of
                   Inl e \<Rightarrow> (Some e, s)
                 | Inr (False, incr_sum, incr_bz) \<Rightarrow> (None, s)
                 | Inr (True, incr_sum, incr_bz) \<Rightarrow>
                     (let st1 = place_row_pat r p incr_sum incr_bz s in
                      case prune_cols col_sums col_bombs r st1 [0..<N] of
                        Inl e \<Rightarrow> (Some e, st1)
                      | Inr ok \<Rightarrow>
                          (case (if ok then dfs_row_st arp col_sums col_bombs (r + 1) st1
                                 else (None, st1)) of
                             (Some e, st2) \<Rightarrow> (Some e, st2)
                           | (None, st2) \<Rightarrow> (None, rollback_st r incr_sum incr_bz st2))))) = opened_dict s"
          by (rule body_st_frame [where f = opened_dict
                and kst = "dfs_row_st arp col_sums col_bombs (r + 1)"
                and rbst = "rollback_st r"
                and pl = "\<lambda>xs ys. place_row_pat r p xs ys s"
                and pr = "\<lambda>st1. prune_cols col_sums col_bombs r st1 [0..<N]"])
            (simp_all only: IH rollback_st_opened place_row_pat_opened)
        from this inv show "opened_dict (snd
                 (case check_row_pat p (grid s ! r) [0..<N] (replicate N 0) (replicate N 0) of
                   Inl e \<Rightarrow> (Some e, s)
                 | Inr (False, incr_sum, incr_bz) \<Rightarrow> (None, s)
                 | Inr (True, incr_sum, incr_bz) \<Rightarrow>
                     (let st1 = place_row_pat r p incr_sum incr_bz s in
                      case prune_cols col_sums col_bombs r st1 [0..<N] of
                        Inl e \<Rightarrow> (Some e, st1)
                      | Inr ok \<Rightarrow>
                          (case (if ok then dfs_row_st arp col_sums col_bombs (r + 1) st1
                                 else (None, st1)) of
                             (Some e, st2) \<Rightarrow> (Some e, st2)
                           | (None, st2) \<Rightarrow> (None, rollback_st r incr_sum incr_bz st2))))) = opened_dict st"
          by (rule trans)
      qed
      then show ?thesis by (simp only: unf False len if_False)
    qed
  qed
qed

lemma enumerate_all_boards_st_eq:
  "enumerate_all_boards_st row_sums row_bombs col_sums col_bombs d
   = (enumerate_all_boards row_sums row_bombs col_sums col_bombs d, d)"
proof (cases "collect_row_patterns row_sums row_bombs col_sums col_bombs d [0..<N] []")
  case (Inl e)
  then show ?thesis
    by (simp add: enumerate_all_boards_st_def enumerate_all_boards_def search_all_boards_def
        collect_row_patterns_st_eq)
next
  case (Inr x)
  show ?thesis
  proof (cases x)
    case None
    with Inr show ?thesis
      by (simp add: enumerate_all_boards_st_def enumerate_all_boards_def search_all_boards_def
          collect_row_patterns_st_eq)
  next
    case (Some arp)
    obtain e st' where run: "dfs_row_st arp col_sums col_bombs 0 (initial_state d) = (e, st')"
      by (cases "dfs_row_st arp col_sums col_bombs 0 (initial_state d)")
    from dfs_row_st_opened [of arp col_sums col_bombs 0 "initial_state d"] run
    have fr: "opened_dict st' = d" by (simp add: initial_state_def)
    from dfs_row_st_outcome [of arp col_sums col_bombs 0 "initial_state d"] run
    have res: "dfs_row arp col_sums col_bombs 0 (initial_state d) = outcome (e, st')" by simp
    show ?thesis
      by (cases e)
        (simp_all add: enumerate_all_boards_st_def enumerate_all_boards_def search_all_boards_def
          collect_row_patterns_st_eq initial_state_st_eq Inr Some run fr res)
  qed
qed

lemma targets_st_eq: "targets_st d = (targets_of d, d)"
proof -
  have "map_st
          (\<lambda>r d. case filter_st
                         (\<lambda>c d. case dict_contains (int r, int c) d of (b, d') \<Rightarrow> (\<not> b, d'))
                         [0..<N] d of
                    (cs, d') \<Rightarrow> (map (\<lambda>c. (int r, int c)) cs, d'))
          [0..<N] d
        = (map (\<lambda>r. map (\<lambda>c. (int r, int c))
                       (filter (\<lambda>c. map_of d (int r, int c) = None) [0..<N])) [0..<N], d)"
  proof (rule map_st_reads)
    fix r
    have "filter_st (\<lambda>c d. case dict_contains (int r, int c) d of (b, d') \<Rightarrow> (\<not> b, d')) [0..<N] d
          = (filter (\<lambda>c. map_of d (int r, int c) = None) [0..<N], d)"
      by (rule filter_st_reads) (simp add: dict_contains_def)
    then show "(case filter_st
                       (\<lambda>c d. case dict_contains (int r, int c) d of (b, d') \<Rightarrow> (\<not> b, d'))
                       [0..<N] d of
                  (cs, d') \<Rightarrow> (map (\<lambda>c. (int r, int c)) cs, d'))
               = (map (\<lambda>c. (int r, int c))
                    (filter (\<lambda>c. map_of d (int r, int c) = None) [0..<N]), d)"
      by simp
  qed
  then show ?thesis by (simp add: targets_st_def targets_of_def)
qed

lemma tally_targets_eq: "tally_targets (targets_of d) sols = tally_counts d sols"
  by (simp add: tally_targets_def tally_counts_def Let_def)

lemma compute_posteriors_st_eq:
  "compute_posteriors_st rnd row_sums row_bombs col_sums col_bombs d
   = (compute_posteriors rnd row_sums row_bombs col_sums col_bombs d, d)"
  by (simp add: compute_posteriors_st_def compute_posteriors_def enumerate_all_boards_st_eq
      targets_st_eq tally_targets_eq split: sum.splits)

section \<open>Properties\<close>

text \<open>
  C2. The column bound check returns None exactly when the bombs still owed,
  \<open>target_bombs - partial_bombs\<close>, are negative or more than \<open>rows_left\<close>; in every other case it
  returns the pair \<open>(partial_sum + nonbomb_left * 1, partial_sum + nonbomb_left * 3)\<close> with
  \<open>nonbomb_left = rows_left - (target_bombs - partial_bombs)\<close>. The target sum plays no part.
\<close>

theorem col_bounds_so_far_contract:
  "(col_bounds_so_far target_sum target_bombs partial_sum partial_bombs rows_left = None)
     = (target_bombs - partial_bombs < 0 \<or> target_bombs - partial_bombs > rows_left)
   \<and> col_bounds_so_far target_sum target_bombs partial_sum partial_bombs rows_left
     = (if target_bombs - partial_bombs < 0 \<or> target_bombs - partial_bombs > rows_left then None
        else Some (partial_sum + (rows_left - (target_bombs - partial_bombs)) * 1,
                   partial_sum + (rows_left - (target_bombs - partial_bombs)) * 3))"
  by (simp add: col_bounds_so_far_def Let_def)

text \<open>
  C7. Contradiction detection: when the bomb target of row \<open>r\<close> is 0 and \<open>opened\<close> holds a bomb
  (value 0) at a coordinate of row \<open>r\<close>, the row has no pattern, whatever its sum target is.
  The two targets of the row must exist (the lists reach index \<open>r\<close>).
\<close>

theorem contradiction_detection:
  assumes "r < length row_sums" and "r < length row_bombs"
    and "row_bombs ! r = 0"
    and "map_of opened (int r, c) = Some 0"
  shows "enumerate_row_patterns r row_sums row_bombs col_sums col_bombs opened = Inr []"
proof -
  have "((int r, c), 0) \<in> set opened"
    using assms(4) by (rule map_of_SomeD)
  then have "((int r, c), 0) \<in> set (filter (\<lambda>((rr, cc), v). rr = int r \<and> v = 0) opened)"
    by simp
  then have "filter (\<lambda>((rr, cc), v). rr = int r \<and> v = 0) opened \<noteq> []"
    by (metis empty_iff empty_set)
  then have "0 < length (filter (\<lambda>((rr, cc), v). rr = int r \<and> v = 0) opened)"
    by simp
  then have "row_bombs ! r
      - sum_list (map (\<lambda>_. 1) (filter (\<lambda>((rr, cc), v). rr = int r \<and> v = 0) opened)) < 0"
    using assms(3) by (simp add: sum_list_ones)
  then show ?thesis
    using assms(1,2)
    by (simp add: enumerate_row_patterns_def row_remaining_def Let_def dfs_negative_bombs)
qed

theorem contradiction_detection_witness:
  "enumerate_row_patterns 1 [4, 7, 5, 5, 5] [1, 0, 0, 0, 0] [5, 5, 5, 5, 6] [0, 0, 0, 0, 1]
     [((1, 2), 0)] = Inr []"
  using contradiction_detection [of 1 "[4, 7, 5, 5, 5]" "[1, 0, 0, 0, 0]" "[((1, 2), 0)]" 2
      "[5, 5, 5, 5, 6]" "[0, 0, 0, 0, 1]"]
  by simp

text \<open>
  C8. Unique maximal row: with sum target 15, bomb target 0 and no entry of \<open>opened\<close> in row
  \<open>r\<close>, the row has exactly one pattern, \<open>[3, 3, 3, 3, 3]\<close>.
\<close>

theorem unique_maximal_row:
  assumes "r < length row_sums" and "r < length row_bombs"
    and "row_sums ! r = 15" and "row_bombs ! r = 0"
    and "\<forall>((rr, cc), v) \<in> set opened. rr \<noteq> int r"
  shows "enumerate_row_patterns r row_sums row_bombs col_sums col_bombs opened
         = Inr [[3, 3, 3, 3, 3]]"
proof -
  have f1: "filter (\<lambda>((rr, cc), v). rr = int r) opened = []"
    using assms(5) by (auto simp: filter_empty_conv)
  have f2: "filter (\<lambda>((rr, cc), v). rr = int r \<and> v = 0) opened = []"
    using assms(5) by (auto simp: filter_empty_conv)
  have "map_of opened (int r, cc) = None" for cc
  proof (cases "map_of opened (int r, cc)")
    case None
    then show ?thesis .
  next
    case (Some v)
    then have "((int r, cc), v) \<in> set opened" by (rule map_of_SomeD)
    with assms(5) show ?thesis by auto
  qed
  then have "map (\<lambda>c. map_of opened (int r, int c)) [0..<N] = [None, None, None, None, None]"
    by (simp add: upt_N)
  then show ?thesis
    using assms(1-4) f1 f2
    by (simp add: enumerate_row_patterns_def row_remaining_def Let_def dfs_all_threes)
qed

theorem unique_maximal_row_witness:
  "enumerate_row_patterns 2 [5, 5, 15, 5, 5] [0, 0, 0, 0, 0] [7, 7, 7, 7, 7] [0, 0, 0, 0, 0]
     [((0, 0), 1), ((3, 4), 1)] = Inr [[3, 3, 3, 3, 3]]"
  using unique_maximal_row [of 2 "[5, 5, 15, 5, 5]" "[0, 0, 0, 0, 0]" "[((0, 0), 1), ((3, 4), 1)]"
      "[7, 7, 7, 7, 7]" "[0, 0, 0, 0, 0]"]
  by simp

text \<open>
  C1. Exactness of the board enumeration. For constraint lists that reach index 4 and a
  dictionary \<open>opened\<close> whose keys are distinct coordinates of the 5x5 grid and whose values are
  in \<open>{0, 1, 2, 3}\<close>, the call returns (it raises nothing), and the list it returns holds
  exactly the grids that \<open>is_board\<close> describes: five rows of five values in \<open>{0, 1, 2, 3}\<close>,
  every row and every column with its bomb count and its non-bomb sum, and every entry of
  \<open>opened\<close> in place. No grid is listed twice.
\<close>

theorem enumerate_all_boards_exact:
  assumes "N \<le> length row_sums" and "N \<le> length row_bombs"
    and "N \<le> length col_sums" and "N \<le> length col_bombs"
    and "keys_ok opened" and "vals_ok opened"
  shows "\<exists>boards. enumerate_all_boards row_sums row_bombs col_sums col_bombs opened = Inr boards
           \<and> distinct boards
           \<and> set boards = {g. is_board row_sums row_bombs col_sums col_bombs opened g}"
proof -
  let ?boards = "completions col_sums col_bombs (map (row_pats row_sums row_bombs opened) [0..<N]) []"
  have "enumerate_all_boards row_sums row_bombs col_sums col_bombs opened = Inr ?boards"
    by (rule enumerate_all_boards_eq [OF assms(1-4)])
  moreover have "distinct ?boards"
    by (rule distinct_completions) (auto simp: row_pats_def row_ref_distinct)
  moreover have "set ?boards = {g. is_board row_sums row_bombs col_sums col_bombs opened g}"
    using completions_is_board [OF assms(5,6)] by blast
  ultimately show ?thesis by blast
qed

theorem enumerate_all_boards_exact_witness:
  "enumerate_all_boards [4, 5, 5, 5, 7] [1, 0, 0, 0, 0] [5, 5, 5, 5, 6] [0, 1, 0, 0, 0] [((4, 4), 2)]
     = Inr [[[1, 0, 1, 1, 1], [1, 1, 1, 1, 1], [1, 1, 1, 1, 1], [1, 1, 1, 1, 1], [1, 2, 1, 1, 2]]]
   \<and> {g. is_board [4, 5, 5, 5, 7] [1, 0, 0, 0, 0] [5, 5, 5, 5, 6] [0, 1, 0, 0, 0] [((4, 4), 2)] g}
     = {[[1, 0, 1, 1, 1], [1, 1, 1, 1, 1], [1, 1, 1, 1, 1], [1, 1, 1, 1, 1], [1, 2, 1, 1, 2]]}"
proof -
  have e: "enumerate_all_boards [4, 5, 5, 5, 7] [1, 0, 0, 0, 0] [5, 5, 5, 5, 6] [0, 1, 0, 0, 0]
             [((4, 4), 2)]
           = Inr [[[1, 0, 1, 1, 1], [1, 1, 1, 1, 1], [1, 1, 1, 1, 1], [1, 1, 1, 1, 1],
                   [1, 2, 1, 1, 2]]]"
    by code_simp
  have "keys_ok [((4, 4), 2)]" and "vals_ok [((4, 4), 2)]"
    by (simp_all add: keys_ok_def vals_ok_def N_def)
  from enumerate_all_boards_exact [OF _ _ _ _ this,
      of "[4, 5, 5, 5, 7]" "[1, 0, 0, 0, 0]" "[5, 5, 5, 5, 6]" "[0, 1, 0, 0, 0]"]
  show ?thesis
    unfolding e by (auto simp: N_def)
qed

text \<open>
  C5. Empty propagation without exceptions. If some row has no pattern,
  \<^verbatim>\<open>_enumerate_all_boards\<close> returns the empty list from its first loop, before any search state
  exists (\<open>search_all_boards\<close> is \<open>None\<close>); on an empty list of boards \<^verbatim>\<open>compute_posteriors\<close>
  returns the empty map and the count 0; \<^verbatim>\<open>choose_next_safest\<close> of the empty map is None.
  For constraint lists that reach index 4, \<^verbatim>\<open>compute_posteriors\<close> returns a value on every
  input, satisfiable or not: no stage raises.
\<close>

theorem empty_propagation:
  "(r < N \<and> enumerate_row_patterns r row_sums row_bombs col_sums col_bombs opened = Inr [] \<longrightarrow>
      search_all_boards row_sums row_bombs col_sums col_bombs opened = Inr None
      \<and> enumerate_all_boards row_sums row_bombs col_sums col_bombs opened = Inr [])
   \<and> (enumerate_all_boards row_sums row_bombs col_sums col_bombs opened = Inr [] \<longrightarrow>
        compute_posteriors rnd row_sums row_bombs col_sums col_bombs opened = Inr ([], 0))
   \<and> choose_next_safest [] = None
   \<and> (N \<le> length row_sums \<and> N \<le> length row_bombs \<and> N \<le> length col_sums \<and> N \<le> length col_bombs
        \<longrightarrow> (\<exists>post n. compute_posteriors rnd row_sums row_bombs col_sums col_bombs opened
                        = Inr (post, n)))"
proof (intro conjI impI)
  assume a: "r < N \<and> enumerate_row_patterns r row_sums row_bombs col_sums col_bombs opened = Inr []"
  then show s: "search_all_boards row_sums row_bombs col_sums col_bombs opened = Inr None"
    using empty_row_stops by blast
  then show "enumerate_all_boards row_sums row_bombs col_sums col_bombs opened = Inr []"
    by (simp add: enumerate_all_boards_def)
next
  assume "enumerate_all_boards row_sums row_bombs col_sums col_bombs opened = Inr []"
  then show "compute_posteriors rnd row_sums row_bombs col_sums col_bombs opened = Inr ([], 0)"
    by (simp add: compute_posteriors_def)
next
  show "choose_next_safest [] = None" by (simp add: choose_next_safest_def)
next
  assume "N \<le> length row_sums \<and> N \<le> length row_bombs \<and> N \<le> length col_sums
          \<and> N \<le> length col_bombs"
  then show "\<exists>post n. compute_posteriors rnd row_sums row_bombs col_sums col_bombs opened
                       = Inr (post, n)"
    using compute_posteriors_returns by blast
qed

theorem empty_propagation_witness:
  "search_all_boards [4, 7, 5, 5, 5] [1, 0, 0, 0, 0] [5, 5, 5, 5, 6] [0, 0, 0, 0, 1] [((1, 2), 0)]
     = Inr None
   \<and> enumerate_all_boards [4, 7, 5, 5, 5] [1, 0, 0, 0, 0] [5, 5, 5, 5, 6] [0, 0, 0, 0, 1]
       [((1, 2), 0)] = Inr []
   \<and> compute_posteriors (\<lambda>x. x) [4, 7, 5, 5, 5] [1, 0, 0, 0, 0] [5, 5, 5, 5, 6] [0, 0, 0, 0, 1]
       [((1, 2), 0)] = Inr ([], 0)
   \<and> choose_next_safest [] = None"
proof -
  have e: "enumerate_row_patterns 1 [4, 7, 5, 5, 5] [1, 0, 0, 0, 0] [5, 5, 5, 5, 6] [0, 0, 0, 0, 1]
             [((1, 2), 0)] = Inr []"
    by code_simp
  have r: "(1::nat) < N" by (simp add: N_def)
  from empty_propagation [of 1 "[4, 7, 5, 5, 5]" "[1, 0, 0, 0, 0]" "[5, 5, 5, 5, 6]"
      "[0, 0, 0, 0, 1]" "[((1, 2), 0)]" "\<lambda>x. x"] e r
  show ?thesis by simp
qed

text \<open>
  C10. Shape of the posterior map when there are solutions. Whenever \<^verbatim>\<open>compute_posteriors\<close>
  returns a count \<open>n\<close> other than 0, the keys of the map are, in row-major order, exactly the
  coordinates of the 5x5 grid that are not keys of \<open>opened\<close>; the total of every record is
  \<open>n\<close>; and every tally the function built has a total other than 0, so the branch that
  skips a zero total is not taken.
\<close>

theorem posterior_map_shape:
  assumes "compute_posteriors rnd row_sums row_bombs col_sums col_bombs opened = Inr (post, n)"
    and "n \<noteq> 0"
  shows "map fst post = targets_of opened
       \<and> set (map fst post)
           = {(r, c). 0 \<le> r \<and> r < int N \<and> 0 \<le> c \<and> c < int N \<and> map_of opened (r, c) = None}
       \<and> (\<forall>(rc, q)\<in>set post. rec_total q = n)
       \<and> (\<exists>sols counts.
             enumerate_all_boards row_sums row_bombs col_sums col_bombs opened = Inr sols
             \<and> tally_counts opened sols = Inr counts
             \<and> (\<forall>(rc, d)\<in>set counts. sum_list d \<noteq> 0)
             \<and> post = post_of rnd counts)"
proof -
  from compute_posteriors_shape [OF assms(1)] obtain sols where
    e: "enumerate_all_boards row_sums row_bombs col_sums col_bombs opened = Inr sols"
    and n: "n = int (length sols)"
    and rng: "sols \<noteq> [] \<Longrightarrow> \<forall>g\<in>set sols. in_range g (targets_of opened)"
    and t: "sols \<noteq> [] \<Longrightarrow>
         tally_counts opened sols = Inr (map (\<lambda>rc. (rc, tally_of rc sols)) (targets_of opened))"
    and p: "sols \<noteq> [] \<Longrightarrow>
         post = map (\<lambda>rc. (rc, record_of rnd (tally_of rc sols))) (targets_of opened)"
    by blast
  from assms(2) n have ne: "sols \<noteq> []" by auto
  let ?counts = "map (\<lambda>rc. (rc, tally_of rc sols)) (targets_of opened)"
  have tot: "sum_list (tally_of rc sols) = n" if "rc \<in> set (targets_of opened)" for rc
    using tally_of_props(1) [OF rng [OF ne] that] n by simp
  have keys: "map fst post = targets_of opened"
    by (simp add: p [OF ne] comp_def)
  have "set (targets_of opened)
        = {(r, c). 0 \<le> r \<and> r < int N \<and> 0 \<le> c \<and> c < int N \<and> map_of opened (r, c) = None}"
  proof (rule set_eqI)
    fix x :: coord
    obtain r c where x: "x = (r, c)" by (cases x)
    show "(x \<in> set (targets_of opened))
          = (x \<in> {(r, c). 0 \<le> r \<and> r < int N \<and> 0 \<le> c \<and> c < int N \<and> map_of opened (r, c) = None})"
    proof
      assume "x \<in> set (targets_of opened)"
      then show "x \<in> {(r, c). 0 \<le> r \<and> r < int N \<and> 0 \<le> c \<and> c < int N
                          \<and> map_of opened (r, c) = None}"
        by (auto simp: targets_set)
    next
      assume "x \<in> {(r, c). 0 \<le> r \<and> r < int N \<and> 0 \<le> c \<and> c < int N
                       \<and> map_of opened (r, c) = None}"
      then have "x = (int (nat r), int (nat c)) \<and> nat r < N \<and> nat c < N
                 \<and> map_of opened (int (nat r), int (nat c)) = None"
        by (auto simp: x nat_less_iff)
      then show "x \<in> set (targets_of opened)"
        unfolding targets_set by blast
    qed
  qed
  with keys have kset: "set (map fst post)
        = {(r, c). 0 \<le> r \<and> r < int N \<and> 0 \<le> c \<and> c < int N \<and> map_of opened (r, c) = None}"
    by simp
  have totals: "\<forall>(rc, q)\<in>set post. rec_total q = n"
    using tot by (auto simp: p [OF ne] record_of_def)
  have nz: "\<forall>(rc, d)\<in>set ?counts. sum_list d \<noteq> 0"
    using tot assms(2) by auto
  have "post = post_of rnd ?counts"
    unfolding post_of_all [OF nz] by (simp add: p [OF ne] comp_def record_of_def)
  with e t [OF ne] nz have "\<exists>sols counts.
             enumerate_all_boards row_sums row_bombs col_sums col_bombs opened = Inr sols
             \<and> tally_counts opened sols = Inr counts
             \<and> (\<forall>(rc, d)\<in>set counts. sum_list d \<noteq> 0)
             \<and> post = post_of rnd counts"
    by blast
  with keys kset totals show ?thesis by blast
qed

theorem posterior_map_shape_witness:
  "\<exists>post. compute_posteriors (\<lambda>x. x) [5, 5, 5, 6, 6] [0, 0, 0, 0, 0] [5, 5, 5, 6, 6] [0, 0, 0, 0, 0]
        [((0, 0), 1), ((0, 1), 1), ((0, 2), 1), ((0, 3), 1), ((0, 4), 1), ((1, 0), 1), ((1, 1), 1),
         ((1, 2), 1), ((1, 3), 1), ((1, 4), 1), ((2, 0), 1), ((2, 1), 1), ((2, 2), 1), ((2, 3), 1),
         ((2, 4), 1), ((3, 0), 1), ((3, 1), 1), ((3, 2), 1), ((4, 0), 1), ((4, 1), 1), ((4, 2), 1)] = Inr (post, 2)
     \<and> map fst post = [(3, 3), (3, 4), (4, 3), (4, 4)]
     \<and> map (\<lambda>kv. rec_total (snd kv)) post = [2, 2, 2, 2]"
proof -
  have e: "compute_posteriors (\<lambda>x. x) [5, 5, 5, 6, 6] [0, 0, 0, 0, 0] [5, 5, 5, 6, 6] [0, 0, 0, 0, 0]
        [((0, 0), 1), ((0, 1), 1), ((0, 2), 1), ((0, 3), 1), ((0, 4), 1), ((1, 0), 1), ((1, 1), 1),
         ((1, 2), 1), ((1, 3), 1), ((1, 4), 1), ((2, 0), 1), ((2, 1), 1), ((2, 2), 1), ((2, 3), 1),
         ((2, 4), 1), ((3, 0), 1), ((3, 1), 1), ((3, 2), 1), ((4, 0), 1), ((4, 1), 1), ((4, 2), 1)]
    = Inr ([((3, 3), \<lparr>rec_total = 2, rec_p = [0, 1 / 2, 1 / 2, 0], rec_ev = 3 / 2\<rparr>),
          ((3, 4), \<lparr>rec_total = 2, rec_p = [0, 1 / 2, 1 / 2, 0], rec_ev = 3 / 2\<rparr>),
          ((4, 3), \<lparr>rec_total = 2, rec_p = [0, 1 / 2, 1 / 2, 0], rec_ev = 3 / 2\<rparr>),
          ((4, 4), \<lparr>rec_total = 2, rec_p = [0, 1 / 2, 1 / 2, 0], rec_ev = 3 / 2\<rparr>)], 2)"
    by code_simp
  have t: "targets_of
        [((0, 0), 1), ((0, 1), 1), ((0, 2), 1), ((0, 3), 1), ((0, 4), 1), ((1, 0), 1), ((1, 1), 1),
         ((1, 2), 1), ((1, 3), 1), ((1, 4), 1), ((2, 0), 1), ((2, 1), 1), ((2, 2), 1), ((2, 3), 1),
         ((2, 4), 1), ((3, 0), 1), ((3, 1), 1), ((3, 2), 1), ((4, 0), 1), ((4, 1), 1), ((4, 2), 1)] = [(3, 3), (3, 4), (4, 3), (4, 4)]"
    by code_simp
  from posterior_map_shape [OF e] t show ?thesis
    unfolding e by simp
qed

text \<open>
  C3. The selection rule. \<^verbatim>\<open>choose_next_safest\<close> of the empty map is None. On a non-empty map
  that \<^verbatim>\<open>compute_posteriors\<close> returned it is an entry of the map whose bomb probability
  \<open>p[0]\<close> is least; among the entries with that probability its \<open>ev\<close> is greatest; and among
  the entries that agree with it in both it comes first in row-major order (lower row, then
  lower column).
\<close>

theorem choose_next_safest_rule:
  "choose_next_safest [] = None
   \<and> (compute_posteriors rnd row_sums row_bombs col_sums col_bombs opened = Inr (post, n) \<longrightarrow>
      post \<noteq> [] \<longrightarrow>
      (\<exists>kv. choose_next_safest post = Some kv \<and> kv \<in> set post
         \<and> (\<forall>kv'\<in>set post.
               rec_p (snd kv) ! 0 \<le> rec_p (snd kv') ! 0
               \<and> (rec_p (snd kv) ! 0 = rec_p (snd kv') ! 0 \<longrightarrow>
                    rec_ev (snd kv') \<le> rec_ev (snd kv)
                    \<and> (rec_ev (snd kv') = rec_ev (snd kv) \<longrightarrow>
                         fst kv = fst kv' \<or> row_major_less (fst kv) (fst kv'))))))"
proof (intro conjI impI)
  show "choose_next_safest [] = None" by (simp add: choose_next_safest_def)
next
  assume cp: "compute_posteriors rnd row_sums row_bombs col_sums col_bombs opened = Inr (post, n)"
    and ne: "post \<noteq> []"
  from compute_posteriors_shape [OF cp] ne have keys: "map fst post = targets_of opened"
    by (auto simp: comp_def)
  then have sorted: "sorted_wrt row_major_less (map fst post)"
    by (simp add: targets_sorted)
  from ne obtain kv0 rest where post: "post = kv0 # rest" by (cases post) auto
  let ?res = "min_by_key safest_key kv0 rest"
  from min_by_key_split [of kv0 rest safest_key] obtain pre suf where
    dec: "kv0 # rest = pre @ ?res # suf"
    and pre: "\<forall>y\<in>set pre. key_less (safest_key ?res) (safest_key y)"
    and suf: "\<forall>y\<in>set suf. \<not> key_less (safest_key y) (safest_key ?res)"
    by blast
  from sorted have later: "\<forall>y\<in>set suf. row_major_less (fst ?res) (fst y)"
    unfolding post dec by (simp add: sorted_wrt_append)
  have "\<forall>kv'\<in>set post.
          rec_p (snd ?res) ! 0 \<le> rec_p (snd kv') ! 0
          \<and> (rec_p (snd ?res) ! 0 = rec_p (snd kv') ! 0 \<longrightarrow>
               rec_ev (snd kv') \<le> rec_ev (snd ?res)
               \<and> (rec_ev (snd kv') = rec_ev (snd ?res) \<longrightarrow>
                    fst ?res = fst kv' \<or> row_major_less (fst ?res) (fst kv')))"
  proof
    fix kv' assume "kv' \<in> set post"
    then consider "kv' \<in> set pre" | "kv' = ?res" | "kv' \<in> set suf"
      unfolding post dec by auto
    then show "rec_p (snd ?res) ! 0 \<le> rec_p (snd kv') ! 0
          \<and> (rec_p (snd ?res) ! 0 = rec_p (snd kv') ! 0 \<longrightarrow>
               rec_ev (snd kv') \<le> rec_ev (snd ?res)
               \<and> (rec_ev (snd kv') = rec_ev (snd ?res) \<longrightarrow>
                    fst ?res = fst kv' \<or> row_major_less (fst ?res) (fst kv')))"
    proof cases
      case 1
      with pre have "key_less (safest_key ?res) (safest_key kv')" by blast
      then show ?thesis
        by (auto simp: key_less_def safest_key_def split: if_splits)
    next
      case 2
      then show ?thesis by simp
    next
      case 3
      with suf have "\<not> key_less (safest_key kv') (safest_key ?res)" by blast
      moreover from 3 later have "row_major_less (fst ?res) (fst kv')" by blast
      ultimately show ?thesis
        by (auto simp: key_less_def safest_key_def split: if_splits)
    qed
  qed
  moreover have "?res \<in> set post"
    unfolding post dec by simp
  moreover have "choose_next_safest post = Some ?res"
    by (simp add: choose_next_safest_def post)
  ultimately show "\<exists>kv. choose_next_safest post = Some kv \<and> kv \<in> set post
         \<and> (\<forall>kv'\<in>set post.
               rec_p (snd kv) ! 0 \<le> rec_p (snd kv') ! 0
               \<and> (rec_p (snd kv) ! 0 = rec_p (snd kv') ! 0 \<longrightarrow>
                    rec_ev (snd kv') \<le> rec_ev (snd kv)
                    \<and> (rec_ev (snd kv') = rec_ev (snd kv) \<longrightarrow>
                         fst kv = fst kv' \<or> row_major_less (fst kv) (fst kv'))))"
    by blast
qed

theorem choose_next_safest_rule_witness:
  "\<exists>kv. choose_next_safest
       [((3, 3), \<lparr>rec_total = 2, rec_p = [0, 1 / 2, 1 / 2, 0], rec_ev = 3 / 2\<rparr>),
          ((3, 4), \<lparr>rec_total = 2, rec_p = [0, 1 / 2, 1 / 2, 0], rec_ev = 3 / 2\<rparr>),
          ((4, 3), \<lparr>rec_total = 2, rec_p = [0, 1 / 2, 1 / 2, 0], rec_ev = 3 / 2\<rparr>),
          ((4, 4), \<lparr>rec_total = 2, rec_p = [0, 1 / 2, 1 / 2, 0], rec_ev = 3 / 2\<rparr>)] = Some kv
     \<and> fst kv = (3, 3)"
proof -
  let ?post = "[((3, 3), \<lparr>rec_total = 2, rec_p = [0, 1 / 2, 1 / 2, 0], rec_ev = 3 / 2\<rparr>),
          ((3, 4), \<lparr>rec_total = 2, rec_p = [0, 1 / 2, 1 / 2, 0], rec_ev = 3 / 2\<rparr>),
          ((4, 3), \<lparr>rec_total = 2, rec_p = [0, 1 / 2, 1 / 2, 0], rec_ev = 3 / 2\<rparr>),
          ((4, 4), \<lparr>rec_total = 2, rec_p = [0, 1 / 2, 1 / 2, 0], rec_ev = 3 / 2\<rparr>)]"
  have e: "compute_posteriors (\<lambda>x. x) [5, 5, 5, 6, 6] [0, 0, 0, 0, 0] [5, 5, 5, 6, 6] [0, 0, 0, 0, 0]
        [((0, 0), 1), ((0, 1), 1), ((0, 2), 1), ((0, 3), 1), ((0, 4), 1), ((1, 0), 1), ((1, 1), 1),
         ((1, 2), 1), ((1, 3), 1), ((1, 4), 1), ((2, 0), 1), ((2, 1), 1), ((2, 2), 1), ((2, 3), 1),
         ((2, 4), 1), ((3, 0), 1), ((3, 1), 1), ((3, 2), 1), ((4, 0), 1), ((4, 1), 1), ((4, 2), 1)]
    = Inr (?post, 2)"
    by code_simp
  from choose_next_safest_rule [of "\<lambda>x. x" "[5, 5, 5, 6, 6]" "[0, 0, 0, 0, 0]" "[5, 5, 5, 6, 6]"
      "[0, 0, 0, 0, 0]" _ ?post 2] e
  obtain kv where c: "choose_next_safest ?post = Some kv" and m: "kv \<in> set ?post"
    and o: "\<forall>kv'\<in>set ?post.
               rec_p (snd kv) ! 0 \<le> rec_p (snd kv') ! 0
               \<and> (rec_p (snd kv) ! 0 = rec_p (snd kv') ! 0 \<longrightarrow>
                    rec_ev (snd kv') \<le> rec_ev (snd kv)
                    \<and> (rec_ev (snd kv') = rec_ev (snd kv) \<longrightarrow>
                         fst kv = fst kv' \<or> row_major_less (fst kv) (fst kv')))"
    by blast
  from o have "rec_p (snd kv) ! 0 = 0 \<longrightarrow> rec_ev (snd kv) = 3 / 2 \<longrightarrow>
               fst kv = (3, 3) \<or> row_major_less (fst kv) (3, 3)"
    by simp
  with m have "fst kv = (3, 3)"
    by (auto simp: row_major_less_def)
  with c show ?thesis by blast
qed

text \<open>
  C4. Monotonic shrinkage. For constraint lists that reach index 4 and two dictionaries with
  distinct coordinates of the 5x5 grid as keys, the larger one with values in \<open>{0, 1, 2, 3}\<close>:
  if every entry of \<open>opened1\<close> is an entry of \<open>opened2\<close>, both calls of \<^verbatim>\<open>compute_posteriors\<close>
  return, and the board count with \<open>opened2\<close> is at most the board count with \<open>opened1\<close>.
\<close>

theorem monotonic_shrinkage:
  assumes "N \<le> length row_sums" and "N \<le> length row_bombs"
    and "N \<le> length col_sums" and "N \<le> length col_bombs"
    and "keys_ok opened1" and "keys_ok opened2" and "vals_ok opened2"
    and "set opened1 \<subseteq> set opened2"
  shows "\<exists>post1 n1 post2 n2.
           compute_posteriors rnd row_sums row_bombs col_sums col_bombs opened1 = Inr (post1, n1)
           \<and> compute_posteriors rnd row_sums row_bombs col_sums col_bombs opened2 = Inr (post2, n2)
           \<and> n2 \<le> n1"
proof -
  let ?b1 = "completions col_sums col_bombs (map (row_pats row_sums row_bombs opened1) [0..<N]) []"
  let ?b2 = "completions col_sums col_bombs (map (row_pats row_sums row_bombs opened2) [0..<N]) []"
  have v1: "vals_ok opened1" using assms(7,8) by (auto simp: vals_ok_def)
  have e1: "enumerate_all_boards row_sums row_bombs col_sums col_bombs opened1 = Inr ?b1"
    and e2: "enumerate_all_boards row_sums row_bombs col_sums col_bombs opened2 = Inr ?b2"
    by (rule enumerate_all_boards_eq [OF assms(1-4)])+
  have d1: "distinct ?b1" and d2: "distinct ?b2"
    by (rule distinct_completions, auto simp: row_pats_def row_ref_distinct)+
  have "is_board row_sums row_bombs col_sums col_bombs opened1 g"
    if "is_board row_sums row_bombs col_sums col_bombs opened2 g" for g
    using that assms(8) by (auto simp: is_board_def)
  then have "set ?b2 \<subseteq> set ?b1"
    using completions_is_board [OF assms(5) v1] completions_is_board [OF assms(6,7)] by blast
  then have "card (set ?b2) \<le> card (set ?b1)"
    by (intro card_mono) simp_all
  then have len: "length ?b2 \<le> length ?b1"
    using d1 d2 by (simp add: distinct_card)
  from compute_posteriors_returns [OF assms(1-4), of rnd opened1] obtain post1 n1 where
    c1: "compute_posteriors rnd row_sums row_bombs col_sums col_bombs opened1 = Inr (post1, n1)"
    by blast
  from compute_posteriors_returns [OF assms(1-4), of rnd opened2] obtain post2 n2 where
    c2: "compute_posteriors rnd row_sums row_bombs col_sums col_bombs opened2 = Inr (post2, n2)"
    by blast
  from compute_posteriors_shape [OF c1] e1 have "n1 = int (length ?b1)" by auto
  moreover from compute_posteriors_shape [OF c2] e2 have "n2 = int (length ?b2)" by auto
  ultimately have "n2 \<le> n1" using len by simp
  with c1 c2 show ?thesis by blast
qed

theorem monotonic_shrinkage_witness:
  "\<exists>post1 post2.
     compute_posteriors (\<lambda>x. x) [5, 5, 5, 6, 6] [0, 0, 0, 0, 0] [5, 5, 5, 6, 6] [0, 0, 0, 0, 0] [] = Inr (post1, 2)
     \<and> compute_posteriors (\<lambda>x. x) [5, 5, 5, 6, 6] [0, 0, 0, 0, 0] [5, 5, 5, 6, 6] [0, 0, 0, 0, 0] [((3, 3), 2)] = Inr (post2, 1)"
proof -
  have k: "keys_ok []" "keys_ok [((3, 3), 2)]" "vals_ok [((3, 3), 2)]"
    by (simp_all add: keys_ok_def vals_ok_def N_def)
  from monotonic_shrinkage [OF _ _ _ _ k, of "[5, 5, 5, 6, 6]" "[0, 0, 0, 0, 0]" "[5, 5, 5, 6, 6]"
      "[0, 0, 0, 0, 0]" "\<lambda>x. x"]
  obtain post1 n1 post2 n2 where
    c1: "compute_posteriors (\<lambda>x. x) [5, 5, 5, 6, 6] [0, 0, 0, 0, 0] [5, 5, 5, 6, 6] [0, 0, 0, 0, 0] [] = Inr (post1, n1)"
    and c2: "compute_posteriors (\<lambda>x. x) [5, 5, 5, 6, 6] [0, 0, 0, 0, 0] [5, 5, 5, 6, 6] [0, 0, 0, 0, 0] [((3, 3), 2)] = Inr (post2, n2)"
    and le: "n2 \<le> n1"
    by (auto simp: N_def)
  have "map_sum id snd (compute_posteriors (\<lambda>x. x) [5, 5, 5, 6, 6] [0, 0, 0, 0, 0] [5, 5, 5, 6, 6] [0, 0, 0, 0, 0] []) = Inr 2"
    by code_simp
  with c1 have "n1 = 2" by simp
  moreover have "map_sum id snd (compute_posteriors (\<lambda>x. x) [5, 5, 5, 6, 6] [0, 0, 0, 0, 0] [5, 5, 5, 6, 6] [0, 0, 0, 0, 0] [((3, 3), 2)]) = Inr 1"
    by code_simp
  with c2 have "n2 = 1" by simp
  ultimately show ?thesis using c1 c2 by blast
qed

text \<open>
  C9. A solve call does not write the dictionary. The functions with the suffix \<open>_st\<close> run the
  statements of the call on the content of the caller's dictionary and return, with the
  result or the exception, the content the dictionary has when the call ends: by a return,
  by the early return for a row without a pattern, or by an exception. For every input,
  \<^verbatim>\<open>compute_posteriors\<close>, \<^verbatim>\<open>_enumerate_all_boards\<close> and \<^verbatim>\<open>_enumerate_row_patterns\<close> end as the
  functions of the first sections say and leave the dictionary with the entries, and the
  order of entries, it had before the call. The nested \<^verbatim>\<open>dfs_row\<close>, from any row and any state
  of the grid and the accumulators, leaves the dictionary of its state as it found it, also
  when it raises with a row placed and not rolled back.
\<close>

theorem opened_not_mutated:
  "compute_posteriors_st rnd row_sums row_bombs col_sums col_bombs opened
     = (compute_posteriors rnd row_sums row_bombs col_sums col_bombs opened, opened)
   \<and> enumerate_all_boards_st row_sums row_bombs col_sums col_bombs opened
     = (enumerate_all_boards row_sums row_bombs col_sums col_bombs opened, opened)
   \<and> enumerate_row_patterns_st r row_sums row_bombs col_sums col_bombs opened
     = (enumerate_row_patterns r row_sums row_bombs col_sums col_bombs opened, opened)
   \<and> opened_dict (snd (dfs_row_st all_row_patterns col_sums col_bombs r' st)) = opened_dict st"
  by (simp only: compute_posteriors_st_eq enumerate_all_boards_st_eq enumerate_row_patterns_st_eq
      dfs_row_st_opened simp_thms)

text \<open>
  Three calls on a dictionary with one entry: column lists that are too short, so that the
  board search raises IndexError with the first row placed; a last row without a pattern;
  and the patterns of the row that holds the entry.
\<close>

theorem opened_not_mutated_witness:
  "compute_posteriors_st (\<lambda>x. x) [5, 5, 5, 6, 6] [0, 0, 0, 0, 0] [5, 5, 5, 6] [0, 0, 0, 0, 0]
     [((3, 3), 2)] = (Inl IndexError, [((3, 3), 2)])
   \<and> enumerate_all_boards_st [5, 5, 5, 6, 3] [0, 0, 0, 0, 0] [5, 5, 5, 6, 6] [0, 0, 0, 0, 0]
     [((3, 3), 2)] = (Inr [], [((3, 3), 2)])
   \<and> enumerate_row_patterns_st 3 [5, 5, 5, 6, 6] [0, 0, 0, 0, 0] [5, 5, 5, 6, 6] [0, 0, 0, 0, 0]
     [((3, 3), 2)] = (Inr [[1, 1, 1, 2, 1]], [((3, 3), 2)])
   \<and> fst (dfs_row_st
            [[[1, 1, 1, 1, 1]], [[1, 1, 1, 1, 1]], [[1, 1, 1, 1, 1]], [[1, 1, 1, 2, 1]],
             [[1, 1, 1, 1, 2]]]
            [5, 5, 5, 6] [0, 0, 0, 0, 0] 0 (initial_state [((3, 3), 2)])) = Some IndexError
   \<and> opened_dict (snd (dfs_row_st
            [[[1, 1, 1, 1, 1]], [[1, 1, 1, 1, 1]], [[1, 1, 1, 1, 1]], [[1, 1, 1, 2, 1]],
             [[1, 1, 1, 1, 2]]]
            [5, 5, 5, 6] [0, 0, 0, 0, 0] 0 (initial_state [((3, 3), 2)]))) = [((3, 3), 2)]"
proof -
  have e1: "compute_posteriors (\<lambda>x. x) [5, 5, 5, 6, 6] [0, 0, 0, 0, 0] [5, 5, 5, 6] [0, 0, 0, 0, 0]
     [((3, 3), 2)] = Inl IndexError"
    by code_simp
  have e2: "enumerate_all_boards [5, 5, 5, 6, 3] [0, 0, 0, 0, 0] [5, 5, 5, 6, 6] [0, 0, 0, 0, 0]
     [((3, 3), 2)] = Inr []"
    by code_simp
  have e3: "enumerate_row_patterns 3 [5, 5, 5, 6, 6] [0, 0, 0, 0, 0] [5, 5, 5, 6, 6] [0, 0, 0, 0, 0]
     [((3, 3), 2)] = Inr [[1, 1, 1, 2, 1]]"
    by code_simp
  have e4: "fst (dfs_row_st
            [[[1, 1, 1, 1, 1]], [[1, 1, 1, 1, 1]], [[1, 1, 1, 1, 1]], [[1, 1, 1, 2, 1]],
             [[1, 1, 1, 1, 2]]]
            [5, 5, 5, 6] [0, 0, 0, 0, 0] 0 (initial_state [((3, 3), 2)])) = Some IndexError"
    by code_simp
  have e5: "opened_dict (initial_state [((3, 3), 2)]) = [((3, 3), 2)]"
    by (simp add: initial_state_def)
  note a = opened_not_mutated [where rnd = "\<lambda>x. x" and row_sums = "[5, 5, 5, 6, 6]"
      and row_bombs = "[0, 0, 0, 0, 0]" and col_sums = "[5, 5, 5, 6]"
      and col_bombs = "[0, 0, 0, 0, 0]" and opened = "[((3, 3), 2)]" and r' = 0
      and st = "initial_state [((3, 3), 2)]"
      and all_row_patterns = "[[[1, 1, 1, 1, 1]], [[1, 1, 1, 1, 1]], [[1, 1, 1, 1, 1]],
             [[1, 1, 1, 2, 1]], [[1, 1, 1, 1, 2]]]"]
  note b = opened_not_mutated [where row_sums = "[5, 5, 5, 6, 3]"
      and row_bombs = "[0, 0, 0, 0, 0]" and col_sums = "[5, 5, 5, 6, 6]"
      and col_bombs = "[0, 0, 0, 0, 0]" and opened = "[((3, 3), 2)]"]
  note c = opened_not_mutated [where r = 3 and row_sums = "[5, 5, 5, 6, 6]"
      and row_bombs = "[0, 0, 0, 0, 0]" and col_sums = "[5, 5, 5, 6, 6]"
      and col_bombs = "[0, 0, 0, 0, 0]" and opened = "[((3, 3), 2)]"]
  from a have a1: "compute_posteriors_st (\<lambda>x. x) [5, 5, 5, 6, 6] [0, 0, 0, 0, 0] [5, 5, 5, 6]
      [0, 0, 0, 0, 0] [((3, 3), 2)] = (Inl IndexError, [((3, 3), 2)])"
    by (simp only: e1)
  from a have a2: "opened_dict (snd (dfs_row_st
            [[[1, 1, 1, 1, 1]], [[1, 1, 1, 1, 1]], [[1, 1, 1, 1, 1]], [[1, 1, 1, 2, 1]],
             [[1, 1, 1, 1, 2]]]
            [5, 5, 5, 6] [0, 0, 0, 0, 0] 0 (initial_state [((3, 3), 2)]))) = [((3, 3), 2)]"
    by (simp only: e5)
  from b have b1: "enumerate_all_boards_st [5, 5, 5, 6, 3] [0, 0, 0, 0, 0] [5, 5, 5, 6, 6]
      [0, 0, 0, 0, 0] [((3, 3), 2)] = (Inr [], [((3, 3), 2)])"
    by (simp only: e2)
  from c have c1: "enumerate_row_patterns_st 3 [5, 5, 5, 6, 6] [0, 0, 0, 0, 0] [5, 5, 5, 6, 6]
      [0, 0, 0, 0, 0] [((3, 3), 2)] = (Inr [[1, 1, 1, 2, 1]], [((3, 3), 2)])"
    by (simp only: e3)
  from a1 b1 c1 e4 a2 show ?thesis by (intro conjI)
qed

text \<open>
  C6. Normalisation and expected value. For every entry \<open>(rc, q)\<close> of the map that
  \<^verbatim>\<open>compute_posteriors\<close> returned: the total of \<open>q\<close> is the number of boards and is not 0;
  the probability of a value \<open>v\<close> is the float quotient of the number of boards with \<open>v\<close> at
  \<open>rc\<close> by the total; and \<open>ev\<close> is the float expression \<open>1*p[1] + 2*p[2] + 3*p[3]\<close>, with no
  term for the bomb. When every float operation has a relative error of at most \<open>2^-53\<close>
  (IEEE doubles rounded to nearest), the four probabilities add up to 1 within \<open>10^-9\<close>, both
  as real numbers and when they are added as floats starting from 0, as \<^verbatim>\<open>sum\<close> does.
\<close>

theorem posterior_normalization:
  assumes "compute_posteriors rnd row_sums row_bombs col_sums col_bombs opened = Inr (post, n)"
    and "(rc, q) \<in> set post"
    and "double_rounding rnd"
  shows "\<exists>sols. enumerate_all_boards row_sums row_bombs col_sums col_bombs opened = Inr sols
           \<and> rec_total q = int (length sols) \<and> rec_total q \<noteq> 0
           \<and> rec_p q
               = map (\<lambda>v. fdiv rnd
                        (int (length (filter (\<lambda>g. g ! nat (fst rc) ! nat (snd rc) = v) sols)))
                        (rec_total q))
                   [0, 1, 2, 3]
           \<and> \<bar>rec_p q ! 0 + rec_p q ! 1 + rec_p q ! 2 + rec_p q ! 3 - 1\<bar> \<le> 1 / 10 ^ 9
           \<and> \<bar>fadd rnd (fadd rnd (fadd rnd (fadd rnd 0 (rec_p q ! 0)) (rec_p q ! 1))
                        (rec_p q ! 2)) (rec_p q ! 3) - 1\<bar> \<le> 1 / 10 ^ 9
           \<and> rec_ev q = fadd rnd (fadd rnd (fmul rnd 1 (rec_p q ! 1)) (fmul rnd 2 (rec_p q ! 2)))
                           (fmul rnd 3 (rec_p q ! 3))"
proof -
  from compute_posteriors_shape [OF assms(1)] obtain sols where
    e: "enumerate_all_boards row_sums row_bombs col_sums col_bombs opened = Inr sols"
    and pz: "sols = [] \<Longrightarrow> post = []"
    and rng: "sols \<noteq> [] \<Longrightarrow> \<forall>g\<in>set sols. in_range g (targets_of opened)"
    and p: "sols \<noteq> [] \<Longrightarrow>
         post = map (\<lambda>rc. (rc, record_of rnd (tally_of rc sols))) (targets_of opened)"
    by blast
  from assms(2) pz have ne: "sols \<noteq> []" by auto
  define d where "d = tally_of rc sols"
  from assms(2) have rc: "rc \<in> set (targets_of opened)" and q: "q = record_of rnd d"
    by (auto simp: p [OF ne] d_def)
  note props = tally_of_props [OF rng [OF ne] rc, folded d_def]
  have cnt: "d ! nat v = int (length (filter (\<lambda>g. g ! nat (fst rc) ! nat (snd rc) = v) sols))"
    if "0 \<le> v" "v \<le> 3" for v
    using props(3) [OF that] by (simp add: cell_def)
  from cnt [of 0] cnt [of 1] cnt [of 2] cnt [of 3]
  have c: "d ! 0 = int (length (filter (\<lambda>g. g ! nat (fst rc) ! nat (snd rc) = 0) sols))"
    "d ! 1 = int (length (filter (\<lambda>g. g ! nat (fst rc) ! nat (snd rc) = 1) sols))"
    "d ! 2 = int (length (filter (\<lambda>g. g ! nat (fst rc) ! nat (snd rc) = 2) sols))"
    "d ! 3 = int (length (filter (\<lambda>g. g ! nat (fst rc) ! nat (snd rc) = 3) sols))"
    by (simp_all add: numeral_3_eq_3 numeral_2_eq_2)
  from props(2) obtain a0 a1 a2 a3 where dl: "d = [a0, a1, a2, a3]"
    by (auto simp: length_Suc_conv numeral_eq_Suc)
  have tot: "sum_list d = int (length sols)" by (rule props(1))
  have sum: "d ! 0 + d ! 1 + d ! 2 + d ! 3 = sum_list d"
    by (simp add: dl)
  have pos: "0 < sum_list d" using ne tot by simp
  have nn: "0 \<le> d ! 0" "0 \<le> d ! 1" "0 \<le> d ! 2" "0 \<le> d ! 3"
    by (simp_all only: c of_nat_0_le_iff)
  let ?t = "\<lambda>i. real_of_int (d ! i) / real_of_int (sum_list d)"
  have t: "0 \<le> ?t 0" "0 \<le> ?t 1" "0 \<le> ?t 2" "0 \<le> ?t 3"
    using nn pos by simp_all
  have "?t 0 + ?t 1 + ?t 2 + ?t 3 = real_of_int (d ! 0 + d ! 1 + d ! 2 + d ! 3) / real_of_int (sum_list d)"
    by (simp add: add_divide_distrib)
  also have "\<dots> = 1" using pos by (simp only: sum) simp
  finally have one: "?t 0 + ?t 1 + ?t 2 + ?t 3 = 1" .
  have rp: "rec_p q ! 0 = rnd (?t 0)" "rec_p q ! 1 = rnd (?t 1)" "rec_p q ! 2 = rnd (?t 2)"
    "rec_p q ! 3 = rnd (?t 3)"
    by (simp_all add: q record_of_def fdiv_def numeral_3_eq_3 numeral_2_eq_2)
  note b = four_sum_bounds [OF assms(3) t one rp]
  have h1: "rec_p q = map (\<lambda>v. fdiv rnd
                        (int (length (filter (\<lambda>g. g ! nat (fst rc) ! nat (snd rc) = v) sols)))
                        (rec_total q)) [0, 1, 2, 3]"
    by (simp add: q record_of_def c c [unfolded One_nat_def])
  have h2: "rec_total q = int (length sols)" by (simp add: q record_of_def tot)
  have h3: "rec_total q \<noteq> 0" using pos by (simp add: q record_of_def)
  have h4: "rec_ev q = fadd rnd (fadd rnd (fmul rnd 1 (rec_p q ! 1)) (fmul rnd 2 (rec_p q ! 2)))
                           (fmul rnd 3 (rec_p q ! 3))"
    by (simp add: q record_of_def)
  show ?thesis
    by (intro exI [of _ sols] conjI e h1 h2 h3 h4 b)
qed

text \<open>
  A puzzle with two boards and four unrevealed cells. Every number that occurs (0, 1/2, 1
  and 3/2) is a binary64 number, so rounding leaves it as it is.
\<close>

theorem posterior_normalization_witness:
  "\<exists>q. ((3, 4), q) \<in> set [((3, 3), \<lparr>rec_total = 2, rec_p = [0, 1 / 2, 1 / 2, 0], rec_ev = 3 / 2\<rparr>),
          ((3, 4), \<lparr>rec_total = 2, rec_p = [0, 1 / 2, 1 / 2, 0], rec_ev = 3 / 2\<rparr>),
          ((4, 3), \<lparr>rec_total = 2, rec_p = [0, 1 / 2, 1 / 2, 0], rec_ev = 3 / 2\<rparr>),
          ((4, 4), \<lparr>rec_total = 2, rec_p = [0, 1 / 2, 1 / 2, 0], rec_ev = 3 / 2\<rparr>)]
     \<and> rec_total q = 2
     \<and> \<bar>rec_p q ! 0 + rec_p q ! 1 + rec_p q ! 2 + rec_p q ! 3 - 1\<bar> \<le> 1 / 10 ^ 9
     \<and> rec_ev q = 3 / 2"
proof -
  let ?q = "\<lparr>rec_total = 2, rec_p = [0, 1 / 2, 1 / 2, 0], rec_ev = 3 / 2\<rparr>"
  have e: "compute_posteriors (\<lambda>x. x) [5, 5, 5, 6, 6] [0, 0, 0, 0, 0] [5, 5, 5, 6, 6] [0, 0, 0, 0, 0]
        [((0, 0), 1), ((0, 1), 1), ((0, 2), 1), ((0, 3), 1), ((0, 4), 1), ((1, 0), 1), ((1, 1), 1),
         ((1, 2), 1), ((1, 3), 1), ((1, 4), 1), ((2, 0), 1), ((2, 1), 1), ((2, 2), 1), ((2, 3), 1),
         ((2, 4), 1), ((3, 0), 1), ((3, 1), 1), ((3, 2), 1), ((4, 0), 1), ((4, 1), 1), ((4, 2), 1)]
    = Inr ([((3, 3), \<lparr>rec_total = 2, rec_p = [0, 1 / 2, 1 / 2, 0], rec_ev = 3 / 2\<rparr>),
          ((3, 4), \<lparr>rec_total = 2, rec_p = [0, 1 / 2, 1 / 2, 0], rec_ev = 3 / 2\<rparr>),
          ((4, 3), \<lparr>rec_total = 2, rec_p = [0, 1 / 2, 1 / 2, 0], rec_ev = 3 / 2\<rparr>),
          ((4, 4), \<lparr>rec_total = 2, rec_p = [0, 1 / 2, 1 / 2, 0], rec_ev = 3 / 2\<rparr>)], 2)"
    by code_simp
  have m: "((3, 4), ?q) \<in> set [((3, 3), \<lparr>rec_total = 2, rec_p = [0, 1 / 2, 1 / 2, 0], rec_ev = 3 / 2\<rparr>),
          ((3, 4), \<lparr>rec_total = 2, rec_p = [0, 1 / 2, 1 / 2, 0], rec_ev = 3 / 2\<rparr>),
          ((4, 3), \<lparr>rec_total = 2, rec_p = [0, 1 / 2, 1 / 2, 0], rec_ev = 3 / 2\<rparr>),
          ((4, 4), \<lparr>rec_total = 2, rec_p = [0, 1 / 2, 1 / 2, 0], rec_ev = 3 / 2\<rparr>)]"
    by simp
  have r: "double_rounding (\<lambda>x. x)" by (simp add: double_rounding_def)
  from posterior_normalization [OF e m r]
  have "\<bar>rec_p ?q ! 0 + rec_p ?q ! 1 + rec_p ?q ! 2 + rec_p ?q ! 3 - 1\<bar> \<le> 1 / 10 ^ 9"
    by (elim exE conjE)
  with m show ?thesis by (intro exI [of _ ?q] conjI) simp_all
qed

end
